theory Spec2Isabelle
  imports Complex_Main "HOL-Library.Multiset" "HOL-Library.Sublist"
begin

section \<open>Supervised Reptile: sampling, state snapshots and the meta-learning steps\<close>

text \<open>
  The development embeds \<^verbatim>\<open>supervised_reptile/reptile.py\<close>. Exceptions are values of
  the type \<open>error\<close>; a computation that may raise returns \<open>error + 'a\<close> with
  \<open>Inl\<close> for the exception.
\<close>

datatype error = ValueError | IndexError | UnboundLocalError | KeyMismatch | EmptyAverage | OpFailure

subsection \<open>Unspecified orders and the random source\<close>

text \<open>
  Python leaves the iteration order of a \<^verbatim>\<open>set\<close> unspecified, and \<^verbatim>\<open>random.shuffle\<close>
  may produce any arrangement of its argument. Both are modelled by a selector: a natural
  number picks one arrangement of a list, digit by digit in the factorial number system,
  so that every number gives an arrangement and every arrangement is given by a number.
\<close>

primrec arrange :: "nat \<Rightarrow> nat \<Rightarrow> 'a list \<Rightarrow> 'a list" where
  "arrange 0 r xs = []"
| "arrange (Suc n) r xs =
     (let i = r mod Suc n
      in xs ! i # arrange n (r div Suc n) (take i xs @ drop (Suc i) xs))"

definition nth_arrangement :: "nat \<Rightarrow> 'a list \<Rightarrow> 'a list" where
  "nth_arrangement r xs = arrange (length xs) r xs"

text \<open>Iterating over \<^verbatim>\<open>set(...)\<close> built from a list: its distinct elements, in the
  order selected by \<open>ord\<close>.\<close>

definition set_iteration :: "nat \<Rightarrow> 'a list \<Rightarrow> 'a list" where
  "set_iteration ord xs = nth_arrangement ord (remdups xs)"

text \<open>
  The module \<^verbatim>\<open>random\<close> of the Python library draws from a global generator. The
  generator is threaded through the model as an explicit state, an infinite sequence of
  natural numbers; each call of the library consumes one number, which selects the
  outcome among those the library's documentation allows.
\<close>

type_synonym rng = "nat \<Rightarrow> nat"

definition rnd :: "rng \<Rightarrow> nat" where
  "rnd g = g 0"

definition advance :: "rng \<Rightarrow> rng" where
  "advance g = (\<lambda>i. g (Suc i))"

text \<open>The generator that gives the numbers of a list, then zeros.\<close>

definition rng_of_list :: "nat list \<Rightarrow> rng" where
  "rng_of_list rs = (\<lambda>i. if i < length rs then rs ! i else 0)"

text \<open>\<^verbatim>\<open>random.shuffle(xs)\<close>: some arrangement of \<open>xs\<close>.\<close>

definition shuffle :: "rng \<Rightarrow> 'a list \<Rightarrow> 'a list \<times> rng" where
  "shuffle g xs = (nth_arrangement (rnd g) xs, advance g)"

text \<open>
  \<^verbatim>\<open>random.sample(population, k)\<close>: \<open>k\<close> items at pairwise different positions of the
  population, in some order; \<^verbatim>\<open>ValueError\<close> when \<open>k\<close> is negative or larger than the
  population.
\<close>

definition random_sample :: "rng \<Rightarrow> 'a list \<Rightarrow> int \<Rightarrow> error + ('a list \<times> rng)" where
  "random_sample g population k =
     (if k < 0 \<or> int (length population) < k then Inl ValueError
      else Inr (take (nat k) (nth_arrangement (rnd g) population), advance g))"

text \<open>
  \<^verbatim>\<open>random.choices(population, k=k)\<close>: \<open>k\<close> items, each at any position of the population
  (positions may repeat); no item when \<open>k\<close> is not positive; \<^verbatim>\<open>IndexError\<close> when an item
  is to be drawn from an empty population.
\<close>

primrec draws :: "nat \<Rightarrow> nat \<Rightarrow> 'a list \<Rightarrow> 'a list" where
  "draws 0 r xs = []"
| "draws (Suc n) r xs = xs ! (r mod length xs) # draws n (r div length xs) xs"

definition random_choices :: "rng \<Rightarrow> 'a list \<Rightarrow> int \<Rightarrow> error + ('a list \<times> rng)" where
  "random_choices g population k =
     (if population = [] \<and> 0 < k then Inl IndexError
      else Inr (draws (nat k) (rnd g) population, advance g))"

text \<open>The slice \<^verbatim>\<open>xs[:n]\<close>; a negative \<open>n\<close> counts from the end of the list.\<close>

definition slice_to :: "int \<Rightarrow> 'a list \<Rightarrow> 'a list" where
  "slice_to n xs = (if 0 \<le> n then take (nat n) xs else take (nat (int (length xs) + n)) xs)"

subsection \<open>Sampling a few-shot task\<close>

type_synonym 'x sample = "'x \<times> int"

text \<open>
  A data class is known by its method \<^verbatim>\<open>sample(n)\<close> only: given the number of examples
  asked for and the random generator it returns examples, or raises.
\<close>

type_synonym 'x data_class = "int \<Rightarrow> rng \<Rightarrow> error + ('x list \<times> rng)"

text \<open>A data class all of whose examples are the same value.\<close>

definition constant_class :: "'x \<Rightarrow> 'x data_class" where
  "constant_class x n g = Inr (replicate (nat n) x, g)"

text \<open>
  The two nested loops that the sampling generators share: every class of the enumerated
  list is asked for \<open>n\<close> examples, and each example is paired with the label that
  \<open>label_of\<close> gives to the index of its class.
\<close>

fun sample_classes ::
  "(nat \<Rightarrow> int) \<Rightarrow> int \<Rightarrow> (nat \<times> 'x data_class) list \<Rightarrow> rng \<Rightarrow> error + ('x sample list \<times> rng)" where
  "sample_classes label_of n [] g = Inr ([], g)"
| "sample_classes label_of n ((class_idx, class_obj) # rest) g =
     (case class_obj n g of
        Inl e \<Rightarrow> Inl e
      | Inr (examples, g1) \<Rightarrow>
          (case sample_classes label_of n rest g1 of
             Inl e \<Rightarrow> Inl e
           | Inr (more, g2) \<Rightarrow> Inr (map (\<lambda>x. (x, label_of class_idx)) examples @ more, g2)))"

definition sample_mini_dataset ::
  "'x data_class list \<Rightarrow> int \<Rightarrow> int \<Rightarrow> rng \<Rightarrow> error + ('x sample list \<times> rng)" where
  "sample_mini_dataset dataset num_classes num_shots g =
     (let (shuffled, g1) = shuffle g dataset
      in sample_classes int num_shots (enumerate 0 (slice_to num_classes shuffled)) g1)"

definition sample_mini_dataset_with_replacements ::
  "'x data_class list \<Rightarrow> int \<Rightarrow> int \<Rightarrow> rng \<Rightarrow> error + ('x sample list \<times> rng)" where
  "sample_mini_dataset_with_replacements dataset num_classes num_shots g =
     (let (shuffled, g1) = shuffle g dataset
      in case random_choices g1 shuffled (num_classes * num_shots) of
           Inl e \<Rightarrow> Inl e
         | Inr (chosen, g2) \<Rightarrow>
             sample_classes (\<lambda>class_idx. int class_idx mod num_classes) 1 (enumerate 0 chosen) g2)"

subsection \<open>Mini-batches\<close>

text \<open>
  \<^verbatim>\<open>_mini_batches\<close> is a generator. Its consumers are \<^verbatim>\<open>for\<close> loops that run to the end,
  so the generator is modelled together with the loop that drives it: \<open>body\<close> is the
  body of the consumer's loop, run on each batch at the moment it is yielded, and \<open>acc\<close>
  is the state the consumer updates. An exception raised by the body or by the generator
  ends both. The result \<open>None\<close> stands for a loop that never ends.
\<close>

text \<open>With replacement: \<^verbatim>\<open>for _ in range(num_batches): yield random.sample(samples, batch_size)\<close>.\<close>

fun sampled_batches ::
  "nat \<Rightarrow> 'x sample list \<Rightarrow> int \<Rightarrow> ('x sample list \<Rightarrow> 'a \<Rightarrow> error + 'a) \<Rightarrow> 'a \<Rightarrow> rng \<Rightarrow> error + ('a \<times> rng)" where
  "sampled_batches 0 samples batch_size body acc g = Inr (acc, g)"
| "sampled_batches (Suc n) samples batch_size body acc g =
     (case random_sample g samples batch_size of
        Inl e \<Rightarrow> Inl e
      | Inr (batch, g1) \<Rightarrow>
          (case body batch acc of
             Inl e \<Rightarrow> Inl e
           | Inr acc1 \<Rightarrow> sampled_batches n samples batch_size body acc1 g1))"

text \<open>
  Without replacement, the loop \<^verbatim>\<open>for sample in samples\<close> over one shuffle either comes
  to its end, with the batch under construction and the count of batches, or executes
  \<^verbatim>\<open>return\<close>.
\<close>

datatype ('x, 'a) progress = Running "'x sample list" int 'a | Returned 'a

fun for_samples ::
  "int \<Rightarrow> int \<Rightarrow> ('x sample list \<Rightarrow> 'a \<Rightarrow> error + 'a) \<Rightarrow> 'x sample list \<Rightarrow>
   'x sample list \<Rightarrow> int \<Rightarrow> 'a \<Rightarrow> error + ('x, 'a) progress" where
  "for_samples batch_size num_batches body [] cur_batch batch_count acc =
     Inr (Running cur_batch batch_count acc)"
| "for_samples batch_size num_batches body (sample # rest) cur_batch batch_count acc =
     (let cur_batch = cur_batch @ [sample]
      in if int (length cur_batch) < batch_size
         then for_samples batch_size num_batches body rest cur_batch batch_count acc
         else (case body cur_batch acc of
                 Inl e \<Rightarrow> Inl e
               | Inr acc1 \<Rightarrow>
                   if batch_count + 1 = num_batches then Inr (Returned acc1)
                   else for_samples batch_size num_batches body rest [] (batch_count + 1) acc1))"

text \<open>The loop \<^verbatim>\<open>while True\<close>: shuffle the samples in place, then run over them.\<close>

partial_function (option) shuffled_batches ::
  "int \<Rightarrow> int \<Rightarrow> ('x sample list \<Rightarrow> 'a \<Rightarrow> error + 'a) \<Rightarrow> 'x sample list \<Rightarrow>
   'x sample list \<Rightarrow> int \<Rightarrow> 'a \<Rightarrow> rng \<Rightarrow> (error + ('a \<times> rng)) option" where
  "shuffled_batches batch_size num_batches body samples cur_batch batch_count acc g =
     (case shuffle g samples of
        (shuffled, g1) \<Rightarrow>
          (case for_samples batch_size num_batches body shuffled cur_batch batch_count acc of
             Inl e \<Rightarrow> Some (Inl e)
           | Inr (Returned acc1) \<Rightarrow> Some (Inr (acc1, g1))
           | Inr (Running cur_batch1 batch_count1 acc1) \<Rightarrow>
               shuffled_batches batch_size num_batches body shuffled cur_batch1 batch_count1 acc1 g1))"

declare shuffled_batches.simps [code]

definition mini_batches ::
  "'x sample list \<Rightarrow> int \<Rightarrow> int \<Rightarrow> bool \<Rightarrow> ('x sample list \<Rightarrow> 'a \<Rightarrow> error + 'a) \<Rightarrow> 'a \<Rightarrow> rng \<Rightarrow>
   (error + ('a \<times> rng)) option" where
  "mini_batches samples batch_size num_batches replacement body acc g =
     (if replacement then Some (sampled_batches (nat num_batches) samples batch_size body acc g)
      else shuffled_batches batch_size num_batches body samples [] 0 acc g)"

text \<open>
  The batches a generator yields are observed by the consumer that appends each one to a
  list, as \<^verbatim>\<open>list(_mini_batches(...))\<close> does.
\<close>

definition collect :: "'b \<Rightarrow> 'b list \<Rightarrow> error + 'b list" where
  "collect batch acc = Inr (acc @ [batch])"

definition yielded ::
  "'x sample list \<Rightarrow> int \<Rightarrow> int \<Rightarrow> bool \<Rightarrow> rng \<Rightarrow> (error + 'x sample list list) option" where
  "yielded samples batch_size num_batches replacement g =
     map_option (map_sum id fst) (mini_batches samples batch_size num_batches replacement collect [] g)"

subsection \<open>Splitting a task into a train and a test set\<close>

text \<open>
  The innermost loop of \<^verbatim>\<open>_split_train_test\<close>: the first item of \<open>train_set\<close> whose label
  is \<open>label\<close> is deleted from it and appended to \<open>test_set\<close>; without such an item nothing
  changes.
\<close>

fun del_first :: "int \<Rightarrow> 'x sample list \<Rightarrow> ('x sample \<times> 'x sample list) option" where
  "del_first label [] = None"
| "del_first label (item # rest) =
     (if snd item = label then Some (item, rest)
      else map_option (\<lambda>(found, rest'). (found, item # rest')) (del_first label rest))"

definition move_first :: "int \<Rightarrow> 'x sample list \<times> 'x sample list \<Rightarrow> 'x sample list \<times> 'x sample list" where
  "move_first label st =
     (case del_first label (fst st) of
        None \<Rightarrow> st
      | Some (item, train_set) \<Rightarrow> (train_set, snd st @ [item]))"

definition split_round :: "int list \<Rightarrow> 'x sample list \<times> 'x sample list \<Rightarrow> 'x sample list \<times> 'x sample list" where
  "split_round labels st = fold move_first labels st"

definition split_train_test ::
  "nat \<Rightarrow> 'x sample list \<Rightarrow> int \<Rightarrow> error + ('x sample list \<times> 'x sample list)" where
  "split_train_test ord samples test_shots =
     (let labels = set_iteration ord (map snd samples);
          (train_set, test_set) = (split_round labels ^^ nat test_shots) (samples, [])
      in if int (length test_set) < int (length labels) * test_shots then Inl IndexError
         else Inr (train_set, test_set))"

subsection \<open>The session and the snapshots of its variables\<close>

text \<open>
  The TensorFlow session holds the value of every variable of the graph. The operations
  of the graph are not part of the repository: an operation that updates variables is a
  function on the values of the variables that may fail, and the tensor of predictions is
  a function of the fed inputs and the values of the variables. Every call of
  \<^verbatim>\<open>session.run\<close> made by \<^verbatim>\<open>reptile.py\<close> is recorded in the session, in the order of
  the calls. Tensors are elements of a real vector space; floating-point rounding is not
  modelled.
\<close>

datatype 'x run = RunPreStep | RunMinimize "'x list" "int list" | RunPredictions "'x list"

record ('k, 't, 'x) session =
  variables :: "'k \<Rightarrow> 't"
  runs :: "'x run list"

type_synonym ('k, 't) update_op = "('k \<Rightarrow> 't) \<Rightarrow> error + ('k \<Rightarrow> 't)"

type_synonym ('k, 't, 'x) minimize_op = "'x list \<Rightarrow> int list \<Rightarrow> ('k, 't) update_op"

type_synonym ('k, 't, 'x) predictions = "'x list \<Rightarrow> ('k \<Rightarrow> 't) \<Rightarrow> error + int list"

definition session_run ::
  "'x run \<Rightarrow> ('k, 't) update_op \<Rightarrow> ('k, 't, 'x) session \<Rightarrow> error + ('k, 't, 'x) session" where
  "session_run call op s =
     (case op (variables s) of
        Inl e \<Rightarrow> Inl e
      | Inr vs \<Rightarrow> Inr (s\<lparr>variables := vs, runs := runs s @ [call]\<rparr>))"

definition session_run_predictions ::
  "('k, 't, 'x) predictions \<Rightarrow> 'x list \<Rightarrow> ('k, 't, 'x) session \<Rightarrow>
   error + (int list \<times> ('k, 't, 'x) session)" where
  "session_run_predictions predictions inputs s =
     (case predictions inputs (variables s) of
        Inl e \<Rightarrow> Inl e
      | Inr preds \<Rightarrow> Inr (preds, s\<lparr>runs := runs s @ [RunPredictions inputs]\<rparr>))"

text \<open>
  Modelled from the spec: the class \<^verbatim>\<open>VariableState\<close> of the module \<^verbatim>\<open>variables\<close>, which
  \<^verbatim>\<open>reptile.py\<close> imports and which is not among the sources. A snapshot is a mapping from
  parameter identifiers to tensors. A variable state is a scope, the set of identifiers it
  covers; \<open>export_variables\<close> copies the current values of the scope into a snapshot.
\<close>

type_synonym ('k, 't) snapshot = "'k \<rightharpoonup> 't"

definition export_variables :: "'k set \<Rightarrow> ('k, 't, 'x) session \<Rightarrow> ('k, 't) snapshot" where
  "export_variables scope s = (\<lambda>k. if k \<in> scope then Some (variables s k) else None)"

text \<open>
  Modelled from the spec: \<^verbatim>\<open>VariableState.import_variables\<close>, which overwrites the live
  values of the scope from the snapshot; a variable outside the scope, or without a value
  in the snapshot, keeps its value.
\<close>

definition import_variables ::
  "'k set \<Rightarrow> ('k, 't) snapshot \<Rightarrow> ('k, 't, 'x) session \<Rightarrow> ('k, 't, 'x) session" where
  "import_variables scope snap s =
     s\<lparr>variables := (\<lambda>k. if k \<in> scope then (case snap k of Some v \<Rightarrow> v | None \<Rightarrow> variables s k)
                            else variables s k)\<rparr>"

text \<open>
  Modelled from the spec: \<^verbatim>\<open>add_vars\<close> and \<^verbatim>\<open>subtract_vars\<close> of the module
  \<^verbatim>\<open>variables\<close>, elementwise over matching keys; operands with different key sets are an
  error.
\<close>

definition add_vars :: "('k, 't::real_vector) snapshot \<Rightarrow> ('k, 't) snapshot \<Rightarrow> error + ('k, 't) snapshot" where
  "add_vars a b =
     (if dom a = dom b
      then Inr (\<lambda>k. case a k of None \<Rightarrow> None | Some x \<Rightarrow> map_option (\<lambda>y. x + y) (b k))
      else Inl KeyMismatch)"

definition subtract_vars :: "('k, 't::real_vector) snapshot \<Rightarrow> ('k, 't) snapshot \<Rightarrow> error + ('k, 't) snapshot" where
  "subtract_vars a b =
     (if dom a = dom b
      then Inr (\<lambda>k. case a k of None \<Rightarrow> None | Some x \<Rightarrow> map_option (\<lambda>y. x - y) (b k))
      else Inl KeyMismatch)"

text \<open>Modelled from the spec: \<^verbatim>\<open>scale_vars\<close> of the module \<^verbatim>\<open>variables\<close>.\<close>

definition scale_vars :: "('k, 't::real_vector) snapshot \<Rightarrow> real \<Rightarrow> ('k, 't) snapshot" where
  "scale_vars a c = (\<lambda>k. map_option (\<lambda>x. scaleR c x) (a k))"

text \<open>
  Modelled from the spec: \<^verbatim>\<open>interpolate_vars\<close> of the module \<^verbatim>\<open>variables\<close>,
  \<open>interpolate(a, b, t) = a + t * (b - a)\<close>.
\<close>

definition interpolate_vars ::
  "('k, 't::real_vector) snapshot \<Rightarrow> ('k, 't) snapshot \<Rightarrow> real \<Rightarrow> error + ('k, 't) snapshot" where
  "interpolate_vars old_vars new_vars epsilon =
     (case subtract_vars new_vars old_vars of
        Inl e \<Rightarrow> Inl e
      | Inr d \<Rightarrow> add_vars old_vars (scale_vars d epsilon))"

text \<open>
  Modelled from the spec: \<^verbatim>\<open>average_vars\<close> of the module \<^verbatim>\<open>variables\<close>, the elementwise
  mean of a list of snapshots, which must not be empty.
\<close>

fun sum_vars :: "('k, 't::real_vector) snapshot \<Rightarrow> ('k, 't) snapshot list \<Rightarrow> error + ('k, 't) snapshot" where
  "sum_vars partial [] = Inr partial"
| "sum_vars partial (v # vs) =
     (case add_vars partial v of Inl e \<Rightarrow> Inl e | Inr partial1 \<Rightarrow> sum_vars partial1 vs)"

definition average_vars :: "('k, 't::real_vector) snapshot list \<Rightarrow> error + ('k, 't) snapshot" where
  "average_vars var_seqs =
     (case var_seqs of
        [] \<Rightarrow> Inl EmptyAverage
      | v # vs \<Rightarrow>
          (case sum_vars v vs of
             Inl e \<Rightarrow> Inl e
           | Inr whole \<Rightarrow> Inr (scale_vars whole (1 / real (length var_seqs)))))"

subsection \<open>Reptile\<close>

text \<open>
  The fields of a \<^verbatim>\<open>Reptile\<close> object. The session is the state that the methods update
  and is passed to them separately. \<open>aug\<close> is the image augmentation, a collaborator
  that is not among the sources; it may fail.
\<close>

record ('k, 't, 'x) reptile =
  model_state :: "'k set"
  full_state :: "'k set"
  transductive :: bool
  pre_step_op :: "('k, 't) update_op option"
  aug :: "'x list \<Rightarrow> error + 'x list"

text \<open>\<^verbatim>\<open>inputs, labels = zip(*batch)\<close>, which raises for an empty batch.\<close>

definition unzip :: "'x sample list \<Rightarrow> error + ('x list \<times> int list)" where
  "unzip batch = (if batch = [] then Inl ValueError else Inr (map fst batch, map snd batch))"

text \<open>
  The two calls \<^verbatim>\<open>if self._pre_step_op: self.session.run(self._pre_step_op)\<close> and
  \<^verbatim>\<open>self.session.run(minimize_op, feed_dict={input_ph: inputs, label_ph: labels})\<close>.
\<close>

definition run_step ::
  "('k, 't) update_op option \<Rightarrow> ('k, 't, 'x) minimize_op \<Rightarrow> 'x list \<Rightarrow> int list \<Rightarrow>
   ('k, 't, 'x) session \<Rightarrow> error + ('k, 't, 'x) session" where
  "run_step pre_step minimize_op inputs labels s =
     (case (case pre_step of None \<Rightarrow> Inr s | Some op \<Rightarrow> session_run RunPreStep op s) of
        Inl e \<Rightarrow> Inl e
      | Inr s1 \<Rightarrow> session_run (RunMinimize inputs labels) (minimize_op inputs labels) s1)"

text \<open>The body of the loop over the mini-batches in \<^verbatim>\<open>Reptile.train_step\<close>.\<close>

definition inner_step ::
  "('k, 't, 'x, 'z) reptile_scheme \<Rightarrow> ('k, 't, 'x) minimize_op \<Rightarrow> 'x sample list \<Rightarrow>
   ('k, 't, 'x) session \<Rightarrow> error + ('k, 't, 'x) session" where
  "inner_step self minimize_op batch s =
     (case unzip batch of
        Inl e \<Rightarrow> Inl e
      | Inr (inputs, labels) \<Rightarrow> run_step (pre_step_op self) minimize_op inputs labels s)"

text \<open>
  One inner adaptation of \<^verbatim>\<open>Reptile.train_step\<close>: a task is sampled with class
  replacement and the model takes one step on each of its mini-batches.
\<close>

definition adapt ::
  "('k, 't, 'x, 'z) reptile_scheme \<Rightarrow> 'x data_class list \<Rightarrow> ('k, 't, 'x) minimize_op \<Rightarrow> int \<Rightarrow> int \<Rightarrow>
   int \<Rightarrow> int \<Rightarrow> bool \<Rightarrow> ('k, 't, 'x) session \<Rightarrow> rng \<Rightarrow>
   (error + (('k, 't, 'x) session \<times> rng)) option" where
  "adapt self dataset minimize_op num_classes num_shots inner_batch_size inner_iters replacement s g =
     (case sample_mini_dataset_with_replacements dataset num_classes num_shots g of
        Inl e \<Rightarrow> Some (Inl e)
      | Inr (mini_dataset, g1) \<Rightarrow>
          mini_batches mini_dataset inner_batch_size inner_iters replacement
            (inner_step self minimize_op) s g1)"

text \<open>
  The loop \<^verbatim>\<open>for _ in range(meta_batch_size)\<close> of \<^verbatim>\<open>Reptile.train_step\<close>; \<open>adaptation\<close>
  is the inner adaptation, \<open>scope\<close> the variable state of the trainable variables.
\<close>

fun reptile_tasks ::
  "nat \<Rightarrow> (('k, 't, 'x) session \<Rightarrow> rng \<Rightarrow> (error + (('k, 't, 'x) session \<times> rng)) option) \<Rightarrow>
   'k set \<Rightarrow> ('k, 't) snapshot \<Rightarrow> ('k, 't, 'x) session \<times> ('k, 't) snapshot list \<times> rng \<Rightarrow>
   (error + (('k, 't, 'x) session \<times> ('k, 't) snapshot list \<times> rng)) option" where
  "reptile_tasks 0 adaptation scope old_vars (s, new_vars, g) = Some (Inr (s, new_vars, g))"
| "reptile_tasks (Suc n) adaptation scope old_vars (s, new_vars, g) =
     (case adaptation s g of
        None \<Rightarrow> None
      | Some (Inl e) \<Rightarrow> Some (Inl e)
      | Some (Inr (s1, g1)) \<Rightarrow>
          reptile_tasks n adaptation scope old_vars
            (import_variables scope old_vars s1, new_vars @ [export_variables scope s1], g1))"

definition train_step ::
  "('k, 't::real_vector, 'x, 'z) reptile_scheme \<Rightarrow> 'x data_class list \<Rightarrow> ('k, 't, 'x) minimize_op \<Rightarrow>
   int \<Rightarrow> int \<Rightarrow> int \<Rightarrow> int \<Rightarrow> bool \<Rightarrow> real \<Rightarrow> int \<Rightarrow> ('k, 't, 'x) session \<Rightarrow> rng \<Rightarrow>
   (error + (('k, 't, 'x) session \<times> rng)) option" where
  "train_step self dataset minimize_op num_classes num_shots inner_batch_size inner_iters
      replacement meta_step_size meta_batch_size s g =
     (let old_vars = export_variables (model_state self) s
      in case reptile_tasks (nat meta_batch_size)
                (adapt self dataset minimize_op num_classes num_shots inner_batch_size inner_iters
                   replacement)
                (model_state self) old_vars (s, [], g) of
           None \<Rightarrow> None
         | Some (Inl e) \<Rightarrow> Some (Inl e)
         | Some (Inr (s1, new_vars, g1)) \<Rightarrow>
             (case average_vars new_vars of
                Inl e \<Rightarrow> Some (Inl e)
              | Inr average \<Rightarrow>
                  (case interpolate_vars old_vars average meta_step_size of
                     Inl e \<Rightarrow> Some (Inl e)
                   | Inr v \<Rightarrow> Some (Inr (import_variables (model_state self) v s1, g1)))))"

text \<open>
  \<^verbatim>\<open>Reptile.train_augmetation\<close>: the inputs of the batch, followed by three augmented
  copies, are fed to one optimization step, with the labels repeated four times. The
  augmentation is taken as a function of the inputs; its own random state is not
  modelled.
\<close>

definition train_augmetation ::
  "('k, 't, 'x, 'z) reptile_scheme \<Rightarrow> 'x sample list \<Rightarrow> ('k, 't, 'x) minimize_op \<Rightarrow>
   ('k, 't, 'x) session \<Rightarrow> error + ('k, 't, 'x) session" where
  "train_augmetation self batch minimize_op s =
     (case unzip batch of
        Inl e \<Rightarrow> Inl e
      | Inr (inputs, labels) \<Rightarrow>
          (case aug self inputs of
             Inl e \<Rightarrow> Inl e
           | Inr augmented \<Rightarrow>
               run_step (pre_step_op self) minimize_op
                 (inputs @ augmented @ augmented @ augmented)
                 (labels @ labels @ labels @ labels) s))"

text \<open>The body of the loop over the mini-batches in \<^verbatim>\<open>Reptile.evaluate\<close>.\<close>

definition evaluate_step ::
  "('k, 't, 'x, 'z) reptile_scheme \<Rightarrow> bool \<Rightarrow> ('k, 't, 'x) minimize_op \<Rightarrow> 'x sample list \<Rightarrow>
   ('k, 't, 'x) session \<Rightarrow> error + ('k, 't, 'x) session" where
  "evaluate_step self augment minimize_op batch s =
     (if augment then train_augmetation self batch minimize_op s
      else inner_step self minimize_op batch s)"

text \<open>
  \<^verbatim>\<open>Reptile._test_predictions\<close>. The loop of the non-transductive mode feeds the inputs of
  the train set followed by one test input and keeps the last prediction, \<^verbatim>\<open>[-1]\<close>, which
  raises when there is no prediction.
\<close>

fun predict_each ::
  "('k, 't, 'x) predictions \<Rightarrow> 'x sample list \<Rightarrow> 'x sample list \<Rightarrow> ('k, 't, 'x) session \<Rightarrow>
   error + (int list \<times> ('k, 't, 'x) session)" where
  "predict_each predictions train_set [] s = Inr ([], s)"
| "predict_each predictions train_set (test_sample # rest) s =
     (case unzip train_set of
        Inl e \<Rightarrow> Inl e
      | Inr (inputs, _) \<Rightarrow>
          (case session_run_predictions predictions (inputs @ [fst test_sample]) s of
             Inl e \<Rightarrow> Inl e
           | Inr (preds, s1) \<Rightarrow>
               if preds = [] then Inl IndexError
               else (case predict_each predictions train_set rest s1 of
                       Inl e \<Rightarrow> Inl e
                     | Inr (res, s2) \<Rightarrow> Inr (last preds # res, s2))))"

definition test_predictions ::
  "('k, 't, 'x, 'z) reptile_scheme \<Rightarrow> 'x sample list \<Rightarrow> 'x sample list \<Rightarrow> ('k, 't, 'x) predictions \<Rightarrow>
   ('k, 't, 'x) session \<Rightarrow> error + (int list \<times> ('k, 't, 'x) session)" where
  "test_predictions self train_set test_set predictions s =
     (if transductive self
      then (case unzip test_set of
              Inl e \<Rightarrow> Inl e
            | Inr (inputs, _) \<Rightarrow> session_run_predictions predictions inputs s)
      else predict_each predictions train_set test_set s)"

text \<open>
  \<^verbatim>\<open>Reptile.evaluate\<close>; \<open>ord\<close> selects the order in which \<^verbatim>\<open>_split_train_test\<close> iterates
  over the set of labels, and \<open>augment\<close> tells whether the argument \<^verbatim>\<open>augment\<close> is not
  \<^verbatim>\<open>None\<close>.
\<close>

definition evaluate ::
  "nat \<Rightarrow> ('k, 't, 'x, 'z) reptile_scheme \<Rightarrow> 'x data_class list \<Rightarrow> ('k, 't, 'x) minimize_op \<Rightarrow>
   ('k, 't, 'x) predictions \<Rightarrow> int \<Rightarrow> int \<Rightarrow> int \<Rightarrow> int \<Rightarrow> bool \<Rightarrow> bool \<Rightarrow>
   ('k, 't, 'x) session \<Rightarrow> rng \<Rightarrow> (error + (int \<times> ('k, 't, 'x) session \<times> rng)) option" where
  "evaluate ord self dataset minimize_op predictions num_classes num_shots inner_batch_size
      inner_iters replacement augment s g =
     (case sample_mini_dataset dataset num_classes (num_shots + 1) g of
        Inl e \<Rightarrow> Some (Inl e)
      | Inr (task, g1) \<Rightarrow>
          (case split_train_test ord task 1 of
             Inl e \<Rightarrow> Some (Inl e)
           | Inr (train_set, test_set) \<Rightarrow>
               (let old_vars = export_variables (full_state self) s
                in case mini_batches train_set inner_batch_size inner_iters replacement
                          (evaluate_step self augment minimize_op) s g1 of
                     None \<Rightarrow> None
                   | Some (Inl e) \<Rightarrow> Some (Inl e)
                   | Some (Inr (s1, g2)) \<Rightarrow>
                       (case test_predictions self train_set test_set predictions s1 of
                          Inl e \<Rightarrow> Some (Inl e)
                        | Inr (test_preds, s2) \<Rightarrow>
                            (let num_correct =
                                   int (length (filter (\<lambda>(pred, sample). pred = snd sample)
                                                  (zip test_preds test_set)))
                             in Some (Inr (num_correct,
                                           import_variables (full_state self) old_vars s2, g2)))))))"

text \<open>Successive calls of \<^verbatim>\<open>evaluate\<close> with the same arguments, on the same session.\<close>

fun evaluate_times ::
  "nat \<Rightarrow> nat \<Rightarrow> ('k, 't, 'x, 'z) reptile_scheme \<Rightarrow> 'x data_class list \<Rightarrow> ('k, 't, 'x) minimize_op \<Rightarrow>
   ('k, 't, 'x) predictions \<Rightarrow> int \<Rightarrow> int \<Rightarrow> int \<Rightarrow> int \<Rightarrow> bool \<Rightarrow> bool \<Rightarrow>
   ('k, 't, 'x) session \<Rightarrow> rng \<Rightarrow> (error + (int list \<times> ('k, 't, 'x) session \<times> rng)) option" where
  "evaluate_times 0 ord self dataset minimize_op predictions num_classes num_shots
      inner_batch_size inner_iters replacement augment s g = Some (Inr ([], s, g))"
| "evaluate_times (Suc n) ord self dataset minimize_op predictions num_classes num_shots
      inner_batch_size inner_iters replacement augment s g =
     (case evaluate ord self dataset minimize_op predictions num_classes num_shots
             inner_batch_size inner_iters replacement augment s g of
        None \<Rightarrow> None
      | Some (Inl e) \<Rightarrow> Some (Inl e)
      | Some (Inr (num_correct, s1, g1)) \<Rightarrow>
          (case evaluate_times n ord self dataset minimize_op predictions num_classes num_shots
                  inner_batch_size inner_iters replacement augment s1 g1 of
             None \<Rightarrow> None
           | Some (Inl e) \<Rightarrow> Some (Inl e)
           | Some (Inr (counts, s2, g2)) \<Rightarrow> Some (Inr (num_correct # counts, s2, g2))))"

subsection \<open>First-order MAML\<close>

record ('k, 't, 'x) foml = "('k, 't, 'x) reptile" +
  tail_shots :: "int option"

text \<open>
  \<^verbatim>\<open>FOML._mini_batches\<close>, a generator, modelled with the loop that consumes it as
  \<open>mini_batches\<close> is; \<open>ord\<close> selects the order in which \<^verbatim>\<open>_split_train_test\<close> iterates
  over the set of labels.
\<close>

definition foml_mini_batches ::
  "nat \<Rightarrow> ('k, 't, 'x) foml \<Rightarrow> 'x sample list \<Rightarrow> int \<Rightarrow> int \<Rightarrow> bool \<Rightarrow>
   ('x sample list \<Rightarrow> 'a \<Rightarrow> error + 'a) \<Rightarrow> 'a \<Rightarrow> rng \<Rightarrow> (error + ('a \<times> rng)) option" where
  "foml_mini_batches ord self mini_dataset inner_batch_size inner_iters replacement body acc g =
     (case tail_shots self of
        None \<Rightarrow> mini_batches mini_dataset inner_batch_size inner_iters replacement body acc g
      | Some shots \<Rightarrow>
          (case split_train_test ord mini_dataset shots of
             Inl e \<Rightarrow> Some (Inl e)
           | Inr (train, tail) \<Rightarrow>
               (case mini_batches train inner_batch_size (inner_iters - 1) replacement body acc g of
                  None \<Rightarrow> None
                | Some (Inl e) \<Rightarrow> Some (Inl e)
                | Some (Inr (acc1, g1)) \<Rightarrow>
                    (case body tail acc1 of
                       Inl e \<Rightarrow> Some (Inl e)
                     | Inr acc2 \<Rightarrow> Some (Inr (acc2, g1))))))"

definition foml_yielded ::
  "nat \<Rightarrow> ('k, 't, 'x) foml \<Rightarrow> 'x sample list \<Rightarrow> int \<Rightarrow> int \<Rightarrow> bool \<Rightarrow> rng \<Rightarrow>
   (error + 'x sample list list) option" where
  "foml_yielded ord self mini_dataset inner_batch_size inner_iters replacement g =
     map_option (map_sum id fst)
       (foml_mini_batches ord self mini_dataset inner_batch_size inner_iters replacement collect [] g)"

text \<open>
  The body of the loop over the mini-batches in \<^verbatim>\<open>FOML.train_step\<close>. The local variable
  \<^verbatim>\<open>last_backup\<close> has no value before the first assignment.
\<close>

definition foml_inner_step ::
  "('k, 't, 'x) foml \<Rightarrow> ('k, 't, 'x) minimize_op \<Rightarrow> 'x sample list \<Rightarrow>
   ('k, 't, 'x) session \<times> ('k, 't) snapshot option \<Rightarrow>
   error + (('k, 't, 'x) session \<times> ('k, 't) snapshot option)" where
  "foml_inner_step self minimize_op batch st =
     (case unzip batch of
        Inl e \<Rightarrow> Inl e
      | Inr (inputs, labels) \<Rightarrow>
          (let last_backup = export_variables (model_state self) (fst st)
           in case run_step (pre_step_op self) minimize_op inputs labels (fst st) of
                Inl e \<Rightarrow> Inl e
              | Inr s1 \<Rightarrow> Inr (s1, Some last_backup)))"

definition foml_adapt ::
  "nat \<Rightarrow> ('k, 't, 'x) foml \<Rightarrow> 'x data_class list \<Rightarrow> ('k, 't, 'x) minimize_op \<Rightarrow> int \<Rightarrow> int \<Rightarrow>
   int \<Rightarrow> int \<Rightarrow> bool \<Rightarrow> ('k, 't, 'x) session \<times> ('k, 't) snapshot option \<Rightarrow> rng \<Rightarrow>
   (error + ((('k, 't, 'x) session \<times> ('k, 't) snapshot option) \<times> rng)) option" where
  "foml_adapt ord self dataset minimize_op num_classes num_shots inner_batch_size inner_iters
      replacement st g =
     (case sample_mini_dataset_with_replacements dataset num_classes num_shots g of
        Inl e \<Rightarrow> Some (Inl e)
      | Inr (mini_dataset, g1) \<Rightarrow>
          foml_mini_batches ord self mini_dataset inner_batch_size inner_iters replacement
            (foml_inner_step self minimize_op) st g1)"

text \<open>
  The loop \<^verbatim>\<open>for _ in range(meta_batch_size)\<close> of \<^verbatim>\<open>FOML.train_step\<close>. Reading
  \<^verbatim>\<open>last_backup\<close> while it has no value raises \<^verbatim>\<open>UnboundLocalError\<close>.
\<close>

fun foml_tasks ::
  "nat \<Rightarrow>
   (('k, 't, 'x) session \<times> ('k, 't) snapshot option \<Rightarrow> rng \<Rightarrow>
      (error + ((('k, 't, 'x) session \<times> ('k, 't) snapshot option) \<times> rng)) option) \<Rightarrow>
   'k set \<Rightarrow> ('k, 't::real_vector) snapshot \<Rightarrow>
   ('k, 't, 'x) session \<times> ('k, 't) snapshot option \<times> ('k, 't) snapshot list \<times> rng \<Rightarrow>
   (error + (('k, 't, 'x) session \<times> ('k, 't) snapshot option \<times> ('k, 't) snapshot list \<times> rng)) option" where
  "foml_tasks 0 adaptation scope old_vars (s, last_backup, updates, g) =
     Some (Inr (s, last_backup, updates, g))"
| "foml_tasks (Suc n) adaptation scope old_vars (s, last_backup, updates, g) =
     (case adaptation (s, last_backup) g of
        None \<Rightarrow> None
      | Some (Inl e) \<Rightarrow> Some (Inl e)
      | Some (Inr ((s1, last_backup1), g1)) \<Rightarrow>
          (case last_backup1 of
             None \<Rightarrow> Some (Inl UnboundLocalError)
           | Some backup \<Rightarrow>
               (case subtract_vars (export_variables scope s1) backup of
                  Inl e \<Rightarrow> Some (Inl e)
                | Inr update \<Rightarrow>
                    foml_tasks n adaptation scope old_vars
                      (import_variables scope old_vars s1, last_backup1, updates @ [update], g1))))"

definition foml_train_step ::
  "nat \<Rightarrow> ('k, 't::real_vector, 'x) foml \<Rightarrow> 'x data_class list \<Rightarrow> ('k, 't, 'x) minimize_op \<Rightarrow>
   int \<Rightarrow> int \<Rightarrow> int \<Rightarrow> int \<Rightarrow> bool \<Rightarrow> real \<Rightarrow> int \<Rightarrow> ('k, 't, 'x) session \<Rightarrow> rng \<Rightarrow>
   (error + (('k, 't, 'x) session \<times> rng)) option" where
  "foml_train_step ord self dataset minimize_op num_classes num_shots inner_batch_size inner_iters
      replacement meta_step_size meta_batch_size s g =
     (let old_vars = export_variables (model_state self) s
      in case foml_tasks (nat meta_batch_size)
                (foml_adapt ord self dataset minimize_op num_classes num_shots inner_batch_size
                   inner_iters replacement)
                (model_state self) old_vars (s, None, [], g) of
           None \<Rightarrow> None
         | Some (Inl e) \<Rightarrow> Some (Inl e)
         | Some (Inr (s1, last_backup, updates, g1)) \<Rightarrow>
             (case average_vars updates of
                Inl e \<Rightarrow> Some (Inl e)
              | Inr update \<Rightarrow>
                  (case add_vars old_vars (scale_vars update meta_step_size) of
                     Inl e \<Rightarrow> Some (Inl e)
                   | Inr v \<Rightarrow> Some (Inr (import_variables (model_state self) v s1, g1)))))"

text \<open>
  Running the body of a loop on a list of batches, one after the other, up to the first
  exception.
\<close>

fun fold_steps :: "('b \<Rightarrow> 'a \<Rightarrow> error + 'a) \<Rightarrow> 'b list \<Rightarrow> 'a \<Rightarrow> error + 'a" where
  "fold_steps body [] acc = Inr acc"
| "fold_steps body (batch # rest) acc =
     (case body batch acc of Inl e \<Rightarrow> Inl e | Inr acc1 \<Rightarrow> fold_steps body rest acc1)"

subsection \<open>A small model for the examples\<close>

text \<open>
  Two variables, \<open>True\<close> trainable and \<open>False\<close> not; a step doubles the trainable one and
  adds the size of the batch, and counts the steps in the other; the prediction for the
  input \<open>a\<close> is 0, for every other input 1.
\<close>

definition toy_minimize :: "(bool, real, string) minimize_op" where
  "toy_minimize inputs labels vs =
     Inr (vs(True := 2 * vs True + real (length inputs), False := vs False + 1))"

definition toy_predictions :: "(bool, real, string) predictions" where
  "toy_predictions inputs vs = Inr (map (\<lambda>x. if x = ''a'' then 0 else 1) inputs)"

definition toy_reptile :: "bool \<Rightarrow> (bool, real, string) reptile" where
  "toy_reptile mode =
     \<lparr>model_state = {True}, full_state = UNIV, transductive = mode, pre_step_op = None, aug = Inr\<rparr>"

definition toy_foml :: "int option \<Rightarrow> (bool, real, string) foml" where
  "toy_foml shots =
     \<lparr>model_state = {True}, full_state = UNIV, transductive = False, pre_step_op = None, aug = Inr,
      tail_shots = shots\<rparr>"

definition toy_session :: "(bool, real, string) session" where
  "toy_session = \<lparr>variables = (\<lambda>_. 0), runs = []\<rparr>"

definition toy_dataset :: "string data_class list" where
  "toy_dataset = [constant_class ''a'', constant_class ''b'']"

text \<open>A batch that consists of the items at pairwise different positions of a list.\<close>

definition at_positions :: "'a list \<Rightarrow> 'a list \<Rightarrow> bool" where
  "at_positions xs b \<longleftrightarrow> (\<exists>ps. distinct ps \<and> set ps \<subseteq> {..<length xs} \<and> b = map ((!) xs) ps)"

text \<open>The items of a list that carry a given label, in their order.\<close>
definition with_label :: "int \<Rightarrow> 'x sample list \<Rightarrow> 'x sample list" where
  "with_label l xs = filter (\<lambda>item. snd item = l) xs"

section \<open>Properties of the split\<close>

lemma mset_remove_nth:
  "i < length xs \<Longrightarrow> add_mset (xs ! i) (mset (take i xs @ drop (Suc i) xs)) = mset xs"
proof -
  assume i: "i < length xs"
  have "mset xs = mset (take i xs @ xs ! i # drop (Suc i) xs)"
    using id_take_nth_drop [OF i] by simp
  then show ?thesis by simp
qed

lemma mset_arrange: "length xs = n \<Longrightarrow> mset (arrange n r xs) = mset xs"
proof (induction n arbitrary: r xs)
  case 0
  then show ?case by simp
next
  case (Suc n)
  let ?i = "r mod Suc n"
  have i: "?i < length xs" using Suc.prems by simp
  have len: "length (take ?i xs @ drop (Suc ?i) xs) = n"
    using Suc.prems i by simp
  show ?case
    using Suc.IH [OF len] mset_remove_nth [OF i] by (simp add: Let_def)
qed

lemma mset_nth_arrangement: "mset (nth_arrangement r xs) = mset xs"
  by (simp add: nth_arrangement_def mset_arrange)

lemma set_set_iteration: "set (set_iteration ord xs) = set xs"
  using mset_nth_arrangement [of ord "remdups xs"]
  by (metis set_iteration_def set_mset_mset set_remdups)

lemma distinct_set_iteration: "distinct (set_iteration ord xs)"
  using mset_nth_arrangement [of ord "remdups xs"]
  by (metis set_iteration_def distinct_remdups mset_eq_imp_distinct_iff)

lemma del_first_None: "del_first l xs = None \<longleftrightarrow> with_label l xs = []"
  by (induction xs) (auto simp: with_label_def)

lemma del_first_Some:
  "del_first l xs = Some (item, xs') \<Longrightarrow>
     snd item = l \<and> with_label l xs = item # with_label l xs' \<and>
     (\<forall>l'. l' \<noteq> l \<longrightarrow> with_label l' xs' = with_label l' xs) \<and>
     mset xs = add_mset item (mset xs') \<and> subseq xs' xs"
proof (induction xs arbitrary: xs')
  case Nil
  then show ?case by simp
next
  case (Cons a xs)
  show ?case
  proof (cases "snd a = l")
    case True
    with Cons.prems show ?thesis by (auto simp: with_label_def)
  next
    case False
    with Cons.prems obtain r where r: "del_first l xs = Some (item, r)" and xs': "xs' = a # r"
      by auto
    from Cons.IH [OF r] False xs' show ?thesis by (auto simp: with_label_def)
  qed
qed

lemma move_first_same:
  "with_label l (fst (move_first l st)) = drop 1 (with_label l (fst st)) \<and>
   with_label l (snd (move_first l st)) = with_label l (snd st) @ take 1 (with_label l (fst st))"
proof (cases "del_first l (fst st)")
  case None
  then show ?thesis using del_first_None [of l "fst st"] by (simp add: move_first_def)
next
  case (Some p)
  obtain item r where p: "p = (item, r)" by (cases p)
  from del_first_Some [OF Some [unfolded p]] have a: "with_label l (fst st) = item # with_label l r"
    by simp
  moreover have "snd item = l" using del_first_Some [OF Some [unfolded p]] by simp
  ultimately show ?thesis using Some p by (simp add: move_first_def with_label_def)
qed

lemma move_first_other:
  "l' \<noteq> l \<Longrightarrow>
   with_label l' (fst (move_first l st)) = with_label l' (fst st) \<and>
   with_label l' (snd (move_first l st)) = with_label l' (snd st)"
proof (cases "del_first l (fst st)")
  case None
  then show ?thesis by (simp add: move_first_def)
next
  case (Some p)
  assume ne: "l' \<noteq> l"
  obtain item r where p: "p = (item, r)" by (cases p)
  from del_first_Some [OF Some [unfolded p]]
  have a: "with_label l (fst st) = item # with_label l r"
    and b: "with_label l' r = with_label l' (fst st)" using ne by auto
  have "snd item = l" using del_first_Some [OF Some [unfolded p]] by simp
  then show ?thesis using b ne Some p by (simp add: move_first_def with_label_def)
qed

lemma move_first_mset:
  "mset (fst (move_first l st)) + mset (snd (move_first l st)) = mset (fst st) + mset (snd st)"
  by (cases "del_first l (fst st)") (auto simp: move_first_def dest: del_first_Some)

lemma move_first_subseq: "subseq (fst (move_first l st)) (fst st)"
  by (cases "del_first l (fst st)") (auto simp: move_first_def dest: del_first_Some)

lemma split_round_other:
  "l \<notin> set ls \<Longrightarrow>
   with_label l (fst (split_round ls st)) = with_label l (fst st) \<and>
   with_label l (snd (split_round ls st)) = with_label l (snd st)"
  unfolding split_round_def
  by (induction ls arbitrary: st) (auto simp: move_first_other)

lemma split_round_same:
  "l \<in> set ls \<Longrightarrow> distinct ls \<Longrightarrow>
   with_label l (fst (split_round ls st)) = drop 1 (with_label l (fst st)) \<and>
   with_label l (snd (split_round ls st)) = with_label l (snd st) @ take 1 (with_label l (fst st))"
proof (induction ls arbitrary: st)
  case Nil
  then show ?case by simp
next
  case (Cons a ls)
  show ?case
  proof (cases "a = l")
    case True
    then have "l \<notin> set ls" using Cons.prems by simp
    from split_round_other [OF this, of "move_first l st"] move_first_same [of l st] True
    show ?thesis by (simp add: split_round_def)
  next
    case False
    then have "l \<in> set ls" "distinct ls" using Cons.prems by auto
    from Cons.IH [OF this, of "move_first a st"] move_first_other [of l a st] False
    show ?thesis by (simp add: split_round_def)
  qed
qed

lemma split_round_mset:
  "mset (fst (split_round ls st)) + mset (snd (split_round ls st)) = mset (fst st) + mset (snd st)"
  unfolding split_round_def
  by (induction ls arbitrary: st) (simp_all add: move_first_mset)

lemma split_round_subseq: "subseq (fst (split_round ls st)) (fst st)"
  unfolding split_round_def
proof (induction ls arbitrary: st)
  case Nil
  then show ?case by simp
next
  case (Cons a ls)
  show ?case using Cons.IH [of "move_first a st"] move_first_subseq [of a st]
    by (auto intro: subseq_order.trans)
qed

lemma split_rounds_same:
  "l \<in> set ls \<Longrightarrow> distinct ls \<Longrightarrow>
   with_label l (fst ((split_round ls ^^ n) st)) = drop n (with_label l (fst st)) \<and>
   with_label l (snd ((split_round ls ^^ n) st)) = with_label l (snd st) @ take n (with_label l (fst st))"
proof (induction n)
  case 0
  then show ?case by simp
next
  case (Suc n)
  have t: "take (Suc n) (with_label l (fst st)) =
      take n (with_label l (fst st)) @ take 1 (drop n (with_label l (fst st)))"
    using take_add [of n 1 "with_label l (fst st)"] by simp
  from Suc.IH [OF Suc.prems] split_round_same [OF Suc.prems, of "(split_round ls ^^ n) st"]
  show ?case by (simp add: t)
qed

lemma split_rounds_mset:
  "mset (fst ((split_round ls ^^ n) st)) + mset (snd ((split_round ls ^^ n) st)) =
   mset (fst st) + mset (snd st)"
  by (induction n) (simp_all add: split_round_mset)

lemma split_rounds_subseq: "subseq (fst ((split_round ls ^^ n) st)) (fst st)"
proof (induction n)
  case 0
  then show ?case by simp
next
  case (Suc n)
  then show ?case
    using split_round_subseq [of ls "(split_round ls ^^ n) st"]
    by (auto intro: subseq_order.trans)
qed

lemma count_list_labels: "count_list (map snd xs) l = length (with_label l xs)"
  by (induction xs) (auto simp: with_label_def)

lemma length_by_label:
  assumes "snd ` set xs \<subseteq> L" "finite L"
  shows "length xs = (\<Sum>l\<in>L. length (with_label l xs))"
proof -
  have "sum (count_list (map snd xs)) L = length (map snd xs)"
    using assms by (intro sum_count_set) auto
  then show ?thesis by (simp add: count_list_labels)
qed

lemma with_label_Nil [simp]: "with_label l [] = []"
  by (simp add: with_label_def)

lemma with_label_empty: "l \<notin> snd ` set xs \<Longrightarrow> with_label l xs = []"
  by (auto simp: with_label_def filter_empty_conv)

lemma with_label_nonempty: "l \<in> snd ` set xs \<Longrightarrow> with_label l xs \<noteq> []"
  by (auto simp: with_label_def filter_empty_conv)

lemma split_rounds_by_label:
  fixes task :: "'x sample list" and ord :: nat and n :: nat
  defines "labels \<equiv> set_iteration ord (map snd task)"
  defines "res \<equiv> (split_round labels ^^ n) (task, [])"
  shows "with_label l (snd res) = take n (with_label l task)"
    and "with_label l (fst res) = drop n (with_label l task)"
proof -
  have m: "mset (fst res) + mset (snd res) = mset task"
    unfolding res_def using split_rounds_mset [where ls=labels and n=n and st="(task, [])"] by simp
  then have sub: "set (fst res) \<subseteq> set task" "set (snd res) \<subseteq> set task"
    by (metis mset_append set_append set_mset_mset sup_ge1, metis mset_append set_append set_mset_mset sup_ge2)
  show "with_label l (snd res) = take n (with_label l task)"
  proof (cases "l \<in> snd ` set task")
    case True
    then have "l \<in> set labels" by (simp add: labels_def set_set_iteration)
    from split_rounds_same [OF this, where n=n and st="(task, [])"] distinct_set_iteration [of ord "map snd task"]
    show ?thesis by (simp add: res_def labels_def)
  next
    case False
    then have "l \<notin> snd ` set (snd res)" using sub by auto
    with False show ?thesis by (simp add: with_label_empty)
  qed
  show "with_label l (fst res) = drop n (with_label l task)"
  proof (cases "l \<in> snd ` set task")
    case True
    then have "l \<in> set labels" by (simp add: labels_def set_set_iteration)
    from split_rounds_same [OF this, where n=n and st="(task, [])"] distinct_set_iteration [of ord "map snd task"]
    show ?thesis by (simp add: res_def labels_def)
  next
    case False
    then have "l \<notin> snd ` set (fst res)" using sub by auto
    with False show ?thesis by (simp add: with_label_empty)
  qed
qed

lemma split_rounds_length:
  fixes task :: "'x sample list"
  shows "length (snd ((split_round (set_iteration ord (map snd task)) ^^ n) (task, []))) =
     (\<Sum>l\<in>snd ` set task. min n (length (with_label l task)))"
proof -
  let ?res = "(split_round (set_iteration ord (map snd task)) ^^ n) (task, [])"
  have "mset (fst ?res) + mset (snd ?res) = mset task"
    using split_rounds_mset [where ls="set_iteration ord (map snd task)" and n=n and st="(task, [])"] by simp
  then have "set (snd ?res) \<subseteq> set task"
    by (metis mset_append set_append set_mset_mset sup_ge2)
  then have "snd ` set (snd ?res) \<subseteq> snd ` set task" by auto
  from length_by_label [OF this] show ?thesis
    by (simp add: split_rounds_by_label min.commute)
qed

lemma length_labels: "length (set_iteration ord (map snd task)) = card (snd ` set task)"
  using distinct_card [OF distinct_set_iteration, of ord "map snd task"]
  by (simp add: set_set_iteration)

lemma sum_min_less:
  assumes "finite L"
  shows "(\<Sum>l\<in>L. min n (c l)) < card L * n \<longleftrightarrow> (\<exists>l\<in>L. c l < (n::nat))"
proof
  assume "(\<Sum>l\<in>L. min n (c l)) < card L * n"
  show "\<exists>l\<in>L. c l < n"
  proof (rule ccontr)
    assume "\<not> (\<exists>l\<in>L. c l < n)"
    then have "(\<Sum>l\<in>L. min n (c l)) = (\<Sum>l\<in>L. n)" by (intro sum.cong) auto
    with \<open>(\<Sum>l\<in>L. min n (c l)) < card L * n\<close> show False by simp
  qed
next
  assume "\<exists>l\<in>L. c l < n"
  then have "(\<Sum>l\<in>L. min n (c l)) < (\<Sum>l\<in>L. n)"
  proof -
    from \<open>\<exists>l\<in>L. c l < n\<close> obtain a where "a \<in> L" "min n (c a) < n" by auto
    then have "\<exists>a\<in>L. min n (c a) < n" by blast
    then show ?thesis using assms by (intro sum_strict_mono_ex1) auto
  qed
  then show "(\<Sum>l\<in>L. min n (c l)) < card L * n" by simp
qed

text \<open>
  Claim C7. For a number \<open>k\<close> of test shots that is not negative, \<^verbatim>\<open>_split_train_test\<close>
  raises \<open>IndexError\<close> exactly when some label of the task has fewer than \<open>k\<close> items.
  Otherwise it returns a train and a test set such that, for every label, the test set
  holds the first \<open>k\<close> items of the task with that label and the train set the
  remaining ones, in the order of the task; the test set has exactly \<open>k\<close> items of each
  label of the task; train and test set together are the task (as multisets), the train
  set is a subsequence of the task, and a task without repeated items gives disjoint sets.
  This holds for every iteration order \<open>ord\<close> of the set of labels.
\<close>

theorem split_train_test_correct:
  fixes task :: "'x sample list"
  assumes k: "0 \<le> k"
  shows "if \<exists>l\<in>snd ` set task. int (length (with_label l task)) < k
         then split_train_test ord task k = Inl IndexError
         else \<exists>train test. split_train_test ord task k = Inr (train, test) \<and>
                (\<forall>l. with_label l test = take (nat k) (with_label l task) \<and>
                     with_label l train = drop (nat k) (with_label l task)) \<and>
                (\<forall>l\<in>snd ` set task. int (length (with_label l test)) = k) \<and>
                mset train + mset test = mset task \<and> subseq train task \<and>
                (distinct task \<longrightarrow> set train \<inter> set test = {})"
proof -
  let ?labels = "set_iteration ord (map snd task)"
  let ?res = "(split_round ?labels ^^ nat k) (task, [])"
  have short: "int (length (snd ?res)) < int (length ?labels) * k \<longleftrightarrow>
      (\<exists>l\<in>snd ` set task. int (length (with_label l task)) < k)"
  proof -
    have "int (length (snd ?res)) < int (length ?labels) * k \<longleftrightarrow>
        length (snd ?res) < card (snd ` set task) * nat k"
    proof -
      have "int (card (snd ` set task)) * k = int (card (snd ` set task) * nat k)"
        using k by simp
      then show ?thesis by (simp only: length_labels of_nat_less_iff)
    qed
    also have "\<dots> \<longleftrightarrow> (\<exists>l\<in>snd ` set task. length (with_label l task) < nat k)"
      by (simp add: split_rounds_length sum_min_less)
    also have "\<dots> \<longleftrightarrow> (\<exists>l\<in>snd ` set task. int (length (with_label l task)) < k)"
      by (simp only: zless_nat_eq_int_zless)
    finally show ?thesis .
  qed
  show ?thesis
  proof (cases "\<exists>l\<in>snd ` set task. int (length (with_label l task)) < k")
    case True
    then show ?thesis using short by (simp add: split_train_test_def split_beta Let_def)
  next
    case False
    have eq: "split_train_test ord task k = Inr (fst ?res, snd ?res)"
      using False short by (simp add: split_train_test_def split_beta Let_def)
    have m: "mset (fst ?res) + mset (snd ?res) = mset task"
      using split_rounds_mset [where ls="?labels" and n="nat k" and st="(task, [])"] by simp
    have s: "subseq (fst ?res) task"
      using split_rounds_subseq [where ls="?labels" and n="nat k" and st="(task, [])"] by simp
    have d: "set (fst ?res) \<inter> set (snd ?res) = {}" if "distinct task"
    proof -
      have "distinct (fst ?res @ snd ?res)"
        using that m by (metis mset_append mset_eq_imp_distinct_iff)
      then show ?thesis by simp
    qed
    have c: "int (length (with_label l (snd ?res))) = k" if "l \<in> snd ` set task" for l
    proof -
      from that False have "k \<le> int (length (with_label l task))" by force
      then show ?thesis using k by (simp add: split_rounds_by_label)
    qed
    have bl: "\<forall>l. with_label l (snd ?res) = take (nat k) (with_label l task) \<and>
        with_label l (fst ?res) = drop (nat k) (with_label l task)"
      by (simp add: split_rounds_by_label)
    have "\<exists>train test. split_train_test ord task k = Inr (train, test) \<and>
                (\<forall>l. with_label l test = take (nat k) (with_label l task) \<and>
                     with_label l train = drop (nat k) (with_label l task)) \<and>
                (\<forall>l\<in>snd ` set task. int (length (with_label l test)) = k) \<and>
                mset train + mset test = mset task \<and> subseq train task \<and>
                (distinct task \<longrightarrow> set train \<inter> set test = {})"
      using eq bl c m s d by blast
    then show ?thesis using False by (simp only: if_False)
  qed
qed

theorem split_train_test_correct_witness:
  "split_train_test 0 [(''a'', 0), (''b'', 1), (''c'', 0), (''d'', 1), (''e'', 0)] 2 =
     Inr ([(''e'', 0)], [(''b'', 1), (''a'', 0), (''d'', 1), (''c'', 0)]) \<and>
   split_train_test 0 [(''a'', 0), (''b'', 1), (''c'', 0)] 2 = Inl IndexError"
proof -
  have "split_train_test 0 [(''a'', 0), (''b'', 1), (''c'', 0), (''d'', 1), (''e'', 0)] 2 =
     Inr ([(''e'', 0)], [(''b'', 1), (''a'', 0), (''d'', 1), (''c'', 0)])"
    by code_simp
  moreover have "split_train_test 0 [(''a'', 0), (''b'', 1), (''c'', 0)] 2 = Inl IndexError"
  proof -
    let ?T = "[(''a'', 0), (''b'', 1), (''c'', 0)] :: string sample list"
    have ex: "\<exists>l\<in>snd ` set ?T. int (length (with_label l ?T)) < 2"
      by (rule bexI [of _ 1]) (simp_all add: with_label_def)
    have k: "(0::int) \<le> 2" by simp
    show ?thesis
      using split_train_test_correct [OF k, where task = ?T and ord = 0] ex
      by (simp only: if_True)
  qed
  ultimately show ?thesis by simp
qed

section \<open>Properties of the mini-batch generators\<close>

lemma arrange_map:
  "n \<le> length xs \<Longrightarrow> arrange n r (map f xs) = map f (arrange n r xs)"
proof (induction n arbitrary: r xs)
  case 0
  then show ?case by simp
next
  case (Suc n)
  let ?i = "r mod Suc n"
  have i: "?i < length xs" using Suc.prems
    by (meson less_le_trans mod_less_divisor zero_less_Suc)
  have "n \<le> length (take ?i xs @ drop (Suc ?i) xs)" using Suc.prems i by simp
  from Suc.IH [OF this, of "r div Suc n"] i show ?case
    by (simp add: Let_def take_map drop_map)
qed

lemma nth_arrangement_positions:
  "nth_arrangement r xs = map ((!) xs) (nth_arrangement r [0..<length xs])"
proof -
  have "nth_arrangement r (map ((!) xs) [0..<length xs]) =
      map ((!) xs) (nth_arrangement r [0..<length xs])"
    unfolding nth_arrangement_def by (simp add: arrange_map)
  then show ?thesis by (simp add: map_nth)
qed

lemma positions_distinct: "distinct (nth_arrangement r [0..<n])"
  using mset_nth_arrangement [of r "[0..<n]"]
  by (metis distinct_upt mset_eq_imp_distinct_iff)

lemma positions_set: "set (nth_arrangement r [0..<n]) = {..<n}"
  using mset_nth_arrangement [of r "[0..<n]"]
  by (metis atLeast_upt set_mset_mset)

lemma length_nth_arrangement [simp]: "length (nth_arrangement r xs) = length xs"
  using mset_nth_arrangement [of r xs] by (metis size_mset)

lemma random_sample_ok:
  assumes "0 \<le> k" "k \<le> int (length xs)"
  shows "\<exists>b. random_sample g xs k = Inr (b, advance g) \<and> length b = nat k \<and> at_positions xs b"
proof -
  let ?ps = "take (nat k) (nth_arrangement (rnd g) [0..<length xs])"
  have "distinct ?ps" by (simp add: positions_distinct)
  moreover have "set ?ps \<subseteq> {..<length xs}"
    using positions_set [of "rnd g" "length xs"] set_take_subset by fastforce
  moreover have "take (nat k) (nth_arrangement (rnd g) xs) = map ((!) xs) ?ps"
    by (subst nth_arrangement_positions) (simp add: take_map)
  ultimately have "at_positions xs (take (nat k) (nth_arrangement (rnd g) xs))"
    unfolding at_positions_def by blast
  then show ?thesis using assms by (simp add: random_sample_def)
qed

lemma random_sample_error:
  "k < 0 \<or> int (length xs) < k \<Longrightarrow> random_sample g xs k = Inl ValueError"
  by (simp add: random_sample_def)

lemma sampled_batches_collect:
  assumes "0 \<le> k" "k \<le> int (length xs)"
  shows "\<exists>bs g'. sampled_batches n xs k collect acc g = Inr (acc @ bs, g') \<and> length bs = n \<and>
           (\<forall>b\<in>set bs. length b = nat k \<and> at_positions xs b)"
proof (induction n arbitrary: acc g)
  case 0
  then show ?case by simp
next
  case (Suc n)
  from random_sample_ok [OF assms, of g] obtain b where
    b: "random_sample g xs k = Inr (b, advance g)" "length b = nat k" "at_positions xs b"
    by blast
  from Suc.IH [of "acc @ [b]" "advance g"] obtain bs g' where
    bs: "sampled_batches n xs k collect (acc @ [b]) (advance g) = Inr ((acc @ [b]) @ bs, g')"
      "length bs = n" "\<forall>b\<in>set bs. length b = nat k \<and> at_positions xs b"
    by blast
  have "sampled_batches (Suc n) xs k collect acc g = Inr (acc @ (b # bs), g')"
    using b bs by (simp add: collect_def)
  moreover have "length (b # bs) = Suc n" using bs by simp
  moreover have "\<forall>c\<in>set (b # bs). length c = nat k \<and> at_positions xs c" using b bs by simp
  ultimately show ?case by blast
qed

lemma for_samples_collect:
  fixes bs nb :: int
  assumes "length cur < nat (max 1 bs)" "cnt < nb"
  shows "(\<exists>cur' new. for_samples bs nb collect xs cur cnt acc =
              Inr (Running cur' (cnt + int (length new)) (acc @ new)) \<and>
            cnt + int (length new) < nb \<and> length cur' < nat (max 1 bs) \<and>
            concat new @ cur' = cur @ xs \<and> (\<forall>b\<in>set new. length b = nat (max 1 bs))) \<or>
         (\<exists>new sfx. for_samples bs nb collect xs cur cnt acc = Inr (Returned (acc @ new)) \<and>
            cnt + int (length new) = nb \<and>
            concat new @ sfx = cur @ xs \<and> (\<forall>b\<in>set new. length b = nat (max 1 bs)))"
  using assms
proof (induction xs arbitrary: cur cnt acc)
  case Nil
  have "for_samples bs nb collect [] cur cnt acc = Inr (Running cur (cnt + int (length ([]::'a sample list list))) (acc @ []))"
    by simp
  then show ?case using Nil by (intro disjI1 exI [of _ cur] exI [of _ "[]"]) simp
next
  case (Cons x xs)
  let ?B = "nat (max 1 bs)"
  let ?c = "cur @ [x]"
  show ?case
  proof (cases "int (length ?c) < bs")
    case True
    then have len: "length ?c < ?B" by simp
    have eq: "for_samples bs nb collect (x # xs) cur cnt acc = for_samples bs nb collect xs ?c cnt acc"
      using True by simp
    from Cons.IH [OF len Cons.prems(2), of acc] show ?thesis
      unfolding eq by simp
  next
    case False
    then have lenB: "length ?c = ?B" using Cons.prems(1) by auto
    show ?thesis
    proof (cases "cnt + 1 = nb")
      case True
      have eq: "for_samples bs nb collect (x # xs) cur cnt acc = Inr (Returned (acc @ [?c]))"
        using False True by (simp add: collect_def)
      show ?thesis unfolding eq using True lenB
        by (intro disjI2 exI [of _ "[?c]"] exI [of _ xs]) simp
    next
      case ne: False
      then have lt: "cnt + 1 < nb" using Cons.prems(2) by simp
      have eq: "for_samples bs nb collect (x # xs) cur cnt acc =
          for_samples bs nb collect xs [] (cnt + 1) (acc @ [?c])"
        using False ne by (simp add: collect_def)
      have z: "length ([]::'a sample list) < ?B" by simp
      from Cons.IH [OF z lt, of "acc @ [?c]"] show ?thesis
      proof
        assume "\<exists>cur' new. for_samples bs nb collect xs [] (cnt + 1) (acc @ [?c]) =
              Inr (Running cur' (cnt + 1 + int (length new)) ((acc @ [?c]) @ new)) \<and>
            cnt + 1 + int (length new) < nb \<and> length cur' < ?B \<and>
            concat new @ cur' = [] @ xs \<and> (\<forall>b\<in>set new. length b = ?B)"
        then obtain cur' new where
          h: "for_samples bs nb collect xs [] (cnt + 1) (acc @ [?c]) =
              Inr (Running cur' (cnt + 1 + int (length new)) ((acc @ [?c]) @ new))"
            "cnt + 1 + int (length new) < nb" "length cur' < ?B"
            "concat new @ cur' = [] @ xs" "\<forall>b\<in>set new. length b = ?B"
          by blast
        show ?thesis
          unfolding eq using h lenB
          by (intro disjI1 exI [of _ cur'] exI [of _ "?c # new"]) (simp add: add.assoc)
      next
        assume "\<exists>new sfx. for_samples bs nb collect xs [] (cnt + 1) (acc @ [?c]) =
              Inr (Returned ((acc @ [?c]) @ new)) \<and>
            cnt + 1 + int (length new) = nb \<and>
            concat new @ sfx = [] @ xs \<and> (\<forall>b\<in>set new. length b = ?B)"
        then obtain new sfx where
          h: "for_samples bs nb collect xs [] (cnt + 1) (acc @ [?c]) =
              Inr (Returned ((acc @ [?c]) @ new))"
            "cnt + 1 + int (length new) = nb"
            "concat new @ sfx = [] @ xs" "\<forall>b\<in>set new. length b = ?B"
          by blast
        show ?thesis
          unfolding eq using h lenB
          by (intro disjI2 exI [of _ "?c # new"] exI [of _ sfx]) (simp add: add.assoc)
      qed
    qed
  qed
qed


lemma length_concat_const:
  "\<forall>b\<in>set new. length b = B \<Longrightarrow> length (concat new) = length new * B"
  by (induction new) simp_all

lemma distinct_concat_part:
  "distinct (concat new @ sfx) \<Longrightarrow> b \<in> set new \<Longrightarrow> distinct b"
  by (induction new) auto

lemma shuffle_mset: "shuffle g xs = (ys, g1) \<Longrightarrow> mset ys = mset xs"
  by (auto simp: shuffle_def mset_nth_arrangement)

lemma measure_step:
  fixes X Y :: nat
  assumes "c' < B" "B \<le> X" "Y + c' = c + n" "0 < n"
  shows "X - c' < X + Y - c"
  using assms by linarith

lemma shuffled_batches_collect:
  fixes bs nb :: int
  assumes "samples \<noteq> []" "length cur < nat (max 1 bs)" "cnt < nb" "set cur \<subseteq> set samples"
  shows "\<exists>new g'. shuffled_batches bs nb collect samples cur cnt acc g = Some (Inr (acc @ new, g')) \<and>
           cnt + int (length new) = nb \<and>
           (\<forall>b\<in>set new. length b = nat (max 1 bs) \<and> set b \<subseteq> set samples) \<and>
           (cur = [] \<and> nat (max 1 bs) dvd length samples \<and> distinct samples \<longrightarrow>
              (\<forall>b\<in>set new. distinct b))"
  using assms
proof (induction "nat (nb - cnt) * nat (max 1 bs) - length cur"
    arbitrary: samples cur cnt acc g rule: less_induct)
  case less
  let ?B = "nat (max 1 bs)"
  obtain shuffled g1 where sh: "shuffle g samples = (shuffled, g1)" by (cases "shuffle g samples")
  from shuffle_mset [OF sh] have ms: "mset shuffled = mset samples" .
  then have set_eq: "set shuffled = set samples" by (metis set_mset_mset)
  have len_eq: "length shuffled = length samples" using ms by (metis size_mset)
  have dist_eq: "distinct shuffled = distinct samples" using ms by (metis mset_eq_imp_distinct_iff)
  from for_samples_collect [OF less.prems(2,3), of shuffled acc]
  show ?case
  proof
    assume "\<exists>cur' new. for_samples bs nb collect shuffled cur cnt acc =
              Inr (Running cur' (cnt + int (length new)) (acc @ new)) \<and>
            cnt + int (length new) < nb \<and> length cur' < ?B \<and>
            concat new @ cur' = cur @ shuffled \<and> (\<forall>b\<in>set new. length b = ?B)"
    then obtain cur' new where
      run: "for_samples bs nb collect shuffled cur cnt acc =
              Inr (Running cur' (cnt + int (length new)) (acc @ new))"
      and lt: "cnt + int (length new) < nb" and c': "length cur' < ?B"
      and cc: "concat new @ cur' = cur @ shuffled" and lens: "\<forall>b\<in>set new. length b = ?B"
      by blast
    let ?cnt' = "cnt + int (length new)"
    have unf: "shuffled_batches bs nb collect samples cur cnt acc g =
        shuffled_batches bs nb collect shuffled cur' ?cnt' (acc @ new) g1"
      by (subst shuffled_batches.simps) (simp add: sh run)
    have "length (concat new @ cur') = length (cur @ shuffled)" using cc by simp
    then have sum: "length new * ?B + length cur' = length cur + length samples"
      using length_concat_const [OF lens] len_eq by simp
    have n: "0 < length samples" using less.prems(1) by simp
    have split: "nat (nb - cnt) = nat (nb - ?cnt') + length new" using lt by simp
    have "1 \<le> nat (nb - ?cnt')" using lt by linarith
    then have pos: "?B \<le> nat (nb - ?cnt') * ?B" by simp
    have decr: "nat (nb - ?cnt') * ?B - length cur' < nat (nb - cnt) * ?B - length cur"
      unfolding split add_mult_distrib
      by (rule measure_step [OF c' pos sum n])
    have sub: "set cur' \<subseteq> set shuffled"
    proof -
      have "set cur' \<subseteq> set (concat new @ cur')" by simp
      also have "\<dots> = set (cur @ shuffled)" using cc by simp
      also have "\<dots> \<subseteq> set shuffled" using less.prems(4) set_eq by simp
      finally show ?thesis .
    qed
    have ne: "shuffled \<noteq> []" using less.prems(1) len_eq by auto
    from less.hyps [OF decr ne c' lt sub, of "acc @ new" g1] obtain new2 g' where
      r: "shuffled_batches bs nb collect shuffled cur' ?cnt' (acc @ new) g1 =
            Some (Inr ((acc @ new) @ new2, g'))"
      and count: "?cnt' + int (length new2) = nb"
      and good: "\<forall>b\<in>set new2. length b = ?B \<and> set b \<subseteq> set shuffled"
      and dist: "cur' = [] \<and> ?B dvd length shuffled \<and> distinct shuffled \<longrightarrow>
              (\<forall>b\<in>set new2. distinct b)"
      by blast
    have new_sub: "set b \<subseteq> set samples" if "b \<in> set new" for b
    proof -
      have "set b \<subseteq> set (concat new @ cur')" using that by auto
      also have "\<dots> = set (cur @ shuffled)" using cc by simp
      also have "\<dots> \<subseteq> set samples" using less.prems(4) set_eq by simp
      finally show ?thesis .
    qed
    have d: "\<forall>b\<in>set (new @ new2). distinct b"
      if h: "cur = [] \<and> ?B dvd length samples \<and> distinct samples"
    proof -
      have "distinct (concat new @ cur')" using cc h dist_eq by simp
      then have d1: "\<forall>b\<in>set new. distinct b" using distinct_concat_part by blast
      have "length new * ?B + length cur' = length samples" using sum h by simp
      then have "?B dvd length cur'" using h
        by (metis dvd_add_right_iff dvd_triv_right)
      then have "cur' = []" using c' by (auto dest: dvd_imp_le)
      then have "\<forall>b\<in>set new2. distinct b" using dist h len_eq dist_eq by simp
      with d1 show ?thesis by auto
    qed
    have "shuffled_batches bs nb collect samples cur cnt acc g = Some (Inr (acc @ (new @ new2), g'))"
      using unf r by simp
    moreover have "cnt + int (length (new @ new2)) = nb" using count by simp
    moreover have "\<forall>b\<in>set (new @ new2). length b = ?B \<and> set b \<subseteq> set samples"
      using lens good new_sub set_eq by auto
    ultimately show ?thesis using d by blast
  next
    assume "\<exists>new sfx. for_samples bs nb collect shuffled cur cnt acc = Inr (Returned (acc @ new)) \<and>
            cnt + int (length new) = nb \<and>
            concat new @ sfx = cur @ shuffled \<and> (\<forall>b\<in>set new. length b = ?B)"
    then obtain new sfx where
      ret: "for_samples bs nb collect shuffled cur cnt acc = Inr (Returned (acc @ new))"
      and count: "cnt + int (length new) = nb"
      and cc: "concat new @ sfx = cur @ shuffled" and lens: "\<forall>b\<in>set new. length b = ?B"
      by blast
    have unf: "shuffled_batches bs nb collect samples cur cnt acc g = Some (Inr (acc @ new, g1))"
      by (subst shuffled_batches.simps) (simp add: sh ret)
    have new_sub: "set b \<subseteq> set samples" if "b \<in> set new" for b
    proof -
      have "set b \<subseteq> set (concat new @ sfx)" using that by auto
      also have "\<dots> = set (cur @ shuffled)" using cc by simp
      also have "\<dots> \<subseteq> set samples" using less.prems(4) set_eq by simp
      finally show ?thesis .
    qed
    have d: "\<forall>b\<in>set new. distinct b" if h: "cur = [] \<and> ?B dvd length samples \<and> distinct samples"
    proof -
      have "distinct (concat new @ sfx)" using cc h dist_eq by simp
      then show ?thesis using distinct_concat_part by blast
    qed
    show ?thesis using unf count lens new_sub d by blast
  qed
qed

lemma shuffled_batches_needs_samples:
  "shuffled_batches bs nb body samples cur cnt acc g = Some y \<Longrightarrow> samples \<noteq> []"
  apply (erule shuffled_batches.raw_induct
      [rotated, where P = "\<lambda>bs nb body samples cur cnt acc g y. samples \<noteq> []"])
  subgoal for f bs nb body samples cur cnt acc g y
  proof (cases "samples = []")
    case True
    assume IH: "\<And>bs nb body samples cur cnt acc g y.
        f bs nb body samples cur cnt acc g = Some y \<Longrightarrow> samples \<noteq> []"
    assume "(case shuffle g samples of
      (shuffled, g1) \<Rightarrow>
        case for_samples bs nb body shuffled cur cnt acc of
          Inl e \<Rightarrow> Some (Inl e)
        | Inr (Running cur_batch1 batch_count1 acc1) \<Rightarrow>
            f bs nb body shuffled cur_batch1 batch_count1 acc1 g1
        | Inr (Returned acc1) \<Rightarrow> Some (Inr (acc1, g1))) = Some y"
    with True have "f bs nb body [] cur cnt acc (advance g) = Some y"
      by (simp add: shuffle_def nth_arrangement_def)
    from IH [OF this] show ?thesis by simp
  next
    case False
    then show ?thesis .
  qed
  done

lemma shuffled_batches_empty: "shuffled_batches bs nb body [] cur cnt acc g = None"
  using shuffled_batches_needs_samples [of bs nb body "[]" cur cnt acc g] by (cases "shuffled_batches bs nb body [] cur cnt acc g") auto


lemma arrangement_abc_0:
  "nth_arrangement 0 [(''a'', 0::int), (''b'', 1), (''c'', 2)] = [(''a'', 0), (''b'', 1), (''c'', 2)]"
  by code_simp

lemma arrangement_abc_2:
  "nth_arrangement 2 [(''a'', 0::int), (''b'', 1), (''c'', 2)] = [(''c'', 2), (''a'', 0), (''b'', 1)]"
  by code_simp

section \<open>Properties of task sampling\<close>

lemma sample_classes_labels:
  assumes "\<forall>c\<in>set cs. \<forall>g. \<exists>xs g'. c n g = Inr (xs, g') \<and> xs \<noteq> []"
  shows "\<exists>task g'. sample_classes label_of n (enumerate i cs) g = Inr (task, g') \<and>
           snd ` set task = label_of ` {i..<i + length cs}"
  using assms
proof (induction cs arbitrary: i g)
  case Nil
  then show ?case by simp
next
  case (Cons c cs)
  from Cons.prems have "\<forall>g. \<exists>xs g'. c n g = Inr (xs, g') \<and> xs \<noteq> []" by simp
  then have "\<exists>xs g'. c n g = Inr (xs, g') \<and> xs \<noteq> []" by (rule spec)
  then obtain xs g1 where c: "c n g = Inr (xs, g1)" "xs \<noteq> []" by blast
  from Cons.prems have "\<forall>c\<in>set cs. \<forall>g. \<exists>xs g'. c n g = Inr (xs, g') \<and> xs \<noteq> []" by simp
  from Cons.IH [OF this, of "Suc i" g1] obtain more g2 where
    m: "sample_classes label_of n (enumerate (Suc i) cs) g1 = Inr (more, g2)"
      "snd ` set more = label_of ` {Suc i..<Suc i + length cs}"
    by blast
  have eq: "sample_classes label_of n (enumerate i (c # cs)) g =
      Inr (map (\<lambda>x. (x, label_of i)) xs @ more, g2)"
    using c m by simp
  have "snd ` set (map (\<lambda>x. (x, label_of i)) xs) = (\<lambda>x. label_of i) ` set xs"
    by (simp add: image_image)
  then have "snd ` set (map (\<lambda>x. (x, label_of i)) xs) = {label_of i}"
    using c(2) by (simp add: image_constant_conv)
  then have "snd ` set (map (\<lambda>x. (x, label_of i)) xs @ more) =
      insert (label_of i) (label_of ` {Suc i..<Suc i + length cs})"
    using m(2) by (simp add: image_Un)
  also have "\<dots> = label_of ` {i..<i + length (c # cs)}"
  proof -
    have "{i..<i + length (c # cs)} = insert i {Suc i..<Suc i + length cs}" by auto
    then show ?thesis by simp
  qed
  finally show ?case using eq by blast
qed

text \<open>
  Claim C3, as amended. \<^verbatim>\<open>_sample_mini_dataset\<close> does not compare the size of the dataset
  with \<open>num_classes\<close>: the slice \<^verbatim>\<open>shuffled[:num_classes]\<close> holds all the classes when
  there are fewer of them. When every class delivers at least one example and
  \<open>num_classes\<close> is not negative, the call returns a task, and the labels of that task
  are exactly \<open>0, \<dots>, min num_classes (len dataset) - 1\<close>.
\<close>

theorem sample_mini_dataset_classes:
  assumes "\<forall>c\<in>set dataset. \<forall>g. \<exists>xs g'. c num_shots g = Inr (xs, g') \<and> xs \<noteq> []"
    and "0 \<le> num_classes"
  shows "\<exists>task g'. sample_mini_dataset dataset num_classes num_shots g = Inr (task, g') \<and>
           snd ` set task = int ` {..<min (nat num_classes) (length dataset)}"
proof -
  let ?shuffled = "nth_arrangement (rnd g) dataset"
  let ?cs = "slice_to num_classes ?shuffled"
  have cs: "?cs = take (nat num_classes) ?shuffled" using assms(2) by (simp add: slice_to_def)
  have "set ?shuffled = set dataset"
    using mset_nth_arrangement [of "rnd g" dataset] by (metis set_mset_mset)
  moreover have "set (take (nat num_classes) ?shuffled) \<subseteq> set ?shuffled"
    by (rule set_take_subset)
  ultimately have sub: "set ?cs \<subseteq> set dataset" unfolding cs by simp
  have ok: "\<forall>c\<in>set ?cs. \<forall>g. \<exists>xs g'. c num_shots g = Inr (xs, g') \<and> xs \<noteq> []"
  proof
    fix c
    assume "c \<in> set ?cs"
    then have "c \<in> set dataset" using sub by (rule subsetD [rotated])
    with assms(1) show "\<forall>g. \<exists>xs g'. c num_shots g = Inr (xs, g') \<and> xs \<noteq> []"
      by (rule bspec)
  qed
  have len: "length ?cs = min (nat num_classes) (length dataset)"
    unfolding cs by (simp add: min.commute)
  from sample_classes_labels [OF ok, of int 0 "advance g"] obtain task g' where
    "sample_classes int num_shots (enumerate 0 ?cs) (advance g) = Inr (task, g')"
    "snd ` set task = int ` {0..<0 + length ?cs}"
    by blast
  then have "sample_mini_dataset dataset num_classes num_shots g = Inr (task, g')"
    and "snd ` set task = int ` {..<min (nat num_classes) (length dataset)}"
    using len by (simp_all add: sample_mini_dataset_def shuffle_def atLeast0LessThan)
  then show ?thesis by blast
qed

theorem sample_mini_dataset_classes_witness:
  "\<exists>task g'. sample_mini_dataset [constant_class ''a'', constant_class ''b''] 3 1 (rng_of_list [1]) =
      Inr (task, g') \<and>
      snd ` set task = int ` {..<min (nat 3) (length [constant_class ''a'', constant_class ''b''])}"
proof -
  have "\<forall>c\<in>set [constant_class ''a'', constant_class ''b''].
      \<forall>g. \<exists>xs g'. c 1 g = Inr (xs, g') \<and> xs \<noteq> []"
    by (simp add: constant_class_def)
  moreover have "(0::int) \<le> 3" by simp
  ultimately show ?thesis
    using sample_mini_dataset_classes
      [of "[constant_class ''a'', constant_class ''b'']" 1 3 "rng_of_list [1]"]
    by blast
qed

text \<open>A dataset of one class, two classes asked for: a task with the single label 0.\<close>

theorem sample_mini_dataset_classes_counterexample:
  "int (length [constant_class ''a'']) < 2 \<and>
   map_sum id fst (sample_mini_dataset [constant_class ''a''] 2 1 (rng_of_list [])) = Inr [(''a'', 0)]"
  by (simp add: sample_mini_dataset_def shuffle_def nth_arrangement_def slice_to_def
      constant_class_def enumerate_eq_zip)

section \<open>A generator and the loop that consumes it\<close>

lemma fold_steps_append:
  "fold_steps body (xs @ ys) acc =
     (case fold_steps body xs acc of Inl e \<Rightarrow> Inl e | Inr acc1 \<Rightarrow> fold_steps body ys acc1)"
  by (induction xs arbitrary: acc) (auto split: sum.splits)

lemma fold_steps_collect: "fold_steps collect xs acc = Inr (acc @ xs)"
  by (induction xs arbitrary: acc) (simp_all add: collect_def)

text \<open>One pass over the samples, run with any loop body and run with the collecting one.\<close>

lemma for_samples_body:
  "for_samples bs nb body xs cur cnt acc = Inr p \<Longrightarrow>
     \<exists>new. (case p of
              Running cur1 cnt1 acc1 \<Rightarrow>
                fold_steps body new acc = Inr acc1 \<and> cnt1 = cnt + int (length new) \<and>
                for_samples bs nb collect xs cur cnt acc0 = Inr (Running cur1 cnt1 (acc0 @ new))
            | Returned acc1 \<Rightarrow>
                fold_steps body new acc = Inr acc1 \<and> cnt + int (length new) = nb \<and> new \<noteq> [] \<and>
                for_samples bs nb collect xs cur cnt acc0 = Inr (Returned (acc0 @ new)))"
proof (induction xs arbitrary: cur cnt acc acc0)
  case Nil
  then show ?case by (intro exI [of _ "[]"]) auto
next
  case (Cons x xs)
  let ?c = "cur @ [x]"
  show ?case
  proof (cases "int (length ?c) < bs")
    case True
    with Cons.prems have "for_samples bs nb body xs ?c cnt acc = Inr p" by simp
    from Cons.IH [OF this, of acc0] obtain new where
      "case p of
              Running cur1 cnt1 acc1 \<Rightarrow>
                fold_steps body new acc = Inr acc1 \<and> cnt1 = cnt + int (length new) \<and>
                for_samples bs nb collect xs ?c cnt acc0 = Inr (Running cur1 cnt1 (acc0 @ new))
            | Returned acc1 \<Rightarrow>
                fold_steps body new acc = Inr acc1 \<and> cnt + int (length new) = nb \<and> new \<noteq> [] \<and>
                for_samples bs nb collect xs ?c cnt acc0 = Inr (Returned (acc0 @ new))"
      by blast
    with True show ?thesis by (intro exI [of _ new]) (simp split: progress.splits)
  next
    case False
    with Cons.prems obtain acc1 where b: "body ?c acc = Inr acc1"
      by (cases "body ?c acc") auto
    have cc: "collect ?c acc0 = Inr (acc0 @ [?c])" by (simp add: collect_def)
    show ?thesis
    proof (cases "cnt + 1 = nb")
      case True
      with False b Cons.prems have p: "p = Returned acc1" by simp
      show ?thesis unfolding p using False True b
        by (intro exI [of _ "[?c]"]) (simp add: cc)
    next
      case ne: False
      with False b Cons.prems have "for_samples bs nb body xs [] (cnt + 1) acc1 = Inr p" by simp
      from Cons.IH [OF this, of "acc0 @ [?c]"] obtain new where
        n: "case p of
              Running cur1 cnt1 acc2 \<Rightarrow>
                fold_steps body new acc1 = Inr acc2 \<and> cnt1 = cnt + 1 + int (length new) \<and>
                for_samples bs nb collect xs [] (cnt + 1) (acc0 @ [?c]) =
                  Inr (Running cur1 cnt1 ((acc0 @ [?c]) @ new))
            | Returned acc2 \<Rightarrow>
                fold_steps body new acc1 = Inr acc2 \<and> cnt + 1 + int (length new) = nb \<and> new \<noteq> [] \<and>
                for_samples bs nb collect xs [] (cnt + 1) (acc0 @ [?c]) =
                  Inr (Returned ((acc0 @ [?c]) @ new))"
        by blast
      show ?thesis using n False ne b
        by (intro exI [of _ "?c # new"]) (simp add: cc split: progress.splits)
    qed
  qed
qed

lemma for_samples_collect_body:
  "for_samples bs nb collect xs cur cnt acc0 = Inr p \<Longrightarrow>
     \<exists>new. (case p of
              Running cur1 cnt1 r \<Rightarrow>
                r = acc0 @ new \<and> cnt1 = cnt + int (length new) \<and>
                for_samples bs nb body xs cur cnt acc =
                  (case fold_steps body new acc of
                     Inl e \<Rightarrow> Inl e | Inr acc1 \<Rightarrow> Inr (Running cur1 cnt1 acc1))
            | Returned r \<Rightarrow>
                r = acc0 @ new \<and> cnt + int (length new) = nb \<and> new \<noteq> [] \<and>
                for_samples bs nb body xs cur cnt acc =
                  (case fold_steps body new acc of
                     Inl e \<Rightarrow> Inl e | Inr acc1 \<Rightarrow> Inr (Returned acc1)))"
proof (induction xs arbitrary: cur cnt acc acc0)
  case Nil
  then show ?case by (intro exI [of _ "[]"]) auto
next
  case (Cons x xs)
  let ?c = "cur @ [x]"
  show ?case
  proof (cases "int (length ?c) < bs")
    case True
    with Cons.prems have "for_samples bs nb collect xs ?c cnt acc0 = Inr p" by simp
    from Cons.IH [OF this, of acc] obtain new where
      "case p of
              Running cur1 cnt1 r \<Rightarrow>
                r = acc0 @ new \<and> cnt1 = cnt + int (length new) \<and>
                for_samples bs nb body xs ?c cnt acc =
                  (case fold_steps body new acc of
                     Inl e \<Rightarrow> Inl e | Inr acc1 \<Rightarrow> Inr (Running cur1 cnt1 acc1))
            | Returned r \<Rightarrow>
                r = acc0 @ new \<and> cnt + int (length new) = nb \<and> new \<noteq> [] \<and>
                for_samples bs nb body xs ?c cnt acc =
                  (case fold_steps body new acc of
                     Inl e \<Rightarrow> Inl e | Inr acc1 \<Rightarrow> Inr (Returned acc1))"
      by blast
    with True show ?thesis by (intro exI [of _ new]) (simp split: progress.splits)
  next
    case False
    have cc: "collect ?c acc0 = Inr (acc0 @ [?c])" by (simp add: collect_def)
    show ?thesis
    proof (cases "cnt + 1 = nb")
      case True
      with False Cons.prems have p: "p = Returned (acc0 @ [?c])" by (simp add: cc)
      show ?thesis unfolding p using False True
        by (intro exI [of _ "[?c]"]) (simp split: sum.splits)
    next
      case ne: False
      with False Cons.prems have rec: "for_samples bs nb collect xs [] (cnt + 1) (acc0 @ [?c]) = Inr p"
        by (simp add: cc)
      show ?thesis
      proof (cases "body ?c acc")
        case (Inl e)
        from Cons.IH [OF rec, of acc] obtain new where
          n: "case p of
              Running cur1 cnt1 r \<Rightarrow>
                r = (acc0 @ [?c]) @ new \<and> cnt1 = cnt + 1 + int (length new)
            | Returned r \<Rightarrow>
                r = (acc0 @ [?c]) @ new \<and> cnt + 1 + int (length new) = nb \<and> new \<noteq> []"
          by (cases p) auto
        show ?thesis using n False ne Inl
          by (intro exI [of _ "?c # new"]) (simp split: progress.splits)
      next
        case (Inr acc1)
        from Cons.IH [OF rec, of acc1] obtain new where
          n: "case p of
              Running cur1 cnt1 r \<Rightarrow>
                r = (acc0 @ [?c]) @ new \<and> cnt1 = cnt + 1 + int (length new) \<and>
                for_samples bs nb body xs [] (cnt + 1) acc1 =
                  (case fold_steps body new acc1 of
                     Inl e \<Rightarrow> Inl e | Inr acc2 \<Rightarrow> Inr (Running cur1 cnt1 acc2))
            | Returned r \<Rightarrow>
                r = (acc0 @ [?c]) @ new \<and> cnt + 1 + int (length new) = nb \<and> new \<noteq> [] \<and>
                for_samples bs nb body xs [] (cnt + 1) acc1 =
                  (case fold_steps body new acc1 of
                     Inl e \<Rightarrow> Inl e | Inr acc2 \<Rightarrow> Inr (Returned acc2))"
          by blast
        show ?thesis using n False ne Inr
          by (intro exI [of _ "?c # new"]) (simp split: progress.splits)
      qed
    qed
  qed
qed


lemma shuffled_batches_body:
  "shuffled_batches bs nb body samples cur cnt acc g = Some y \<Longrightarrow>
     \<forall>a g'. y = Inr (a, g') \<longrightarrow>
       (\<forall>acc0. \<exists>new. shuffled_batches bs nb collect samples cur cnt acc0 g =
                         Some (Inr (acc0 @ new, g')) \<and>
                      cnt + int (length new) = nb \<and> new \<noteq> [] \<and>
                      fold_steps body new acc = Inr a)"
  apply (erule shuffled_batches.raw_induct
      [rotated, where P = "\<lambda>bs nb body samples cur cnt acc g y.
         \<forall>a g'. y = Inr (a, g') \<longrightarrow>
           (\<forall>acc0. \<exists>new. shuffled_batches bs nb collect samples cur cnt acc0 g =
                         Some (Inr (acc0 @ new, g')) \<and>
                      cnt + int (length new) = nb \<and> new \<noteq> [] \<and>
                      fold_steps body new acc = Inr a)"])
  subgoal for f bs nb body samples cur cnt acc g y
  proof (intro allI impI)
    fix a g' acc0
    assume IH: "\<And>bs nb body samples cur cnt acc g y.
        f bs nb body samples cur cnt acc g = Some y \<Longrightarrow>
        \<forall>a g'. y = Inr (a, g') \<longrightarrow>
          (\<forall>acc0. \<exists>new. shuffled_batches bs nb collect samples cur cnt acc0 g =
                         Some (Inr (acc0 @ new, g')) \<and>
                      cnt + int (length new) = nb \<and> new \<noteq> [] \<and>
                      fold_steps body new acc = Inr a)"
    assume step: "(case shuffle g samples of
      (shuffled, g1) \<Rightarrow>
        case for_samples bs nb body shuffled cur cnt acc of
          Inl e \<Rightarrow> Some (Inl e)
        | Inr (Running cur_batch1 batch_count1 acc1) \<Rightarrow>
            f bs nb body shuffled cur_batch1 batch_count1 acc1 g1
        | Inr (Returned acc1) \<Rightarrow> Some (Inr (acc1, g1))) = Some y"
    assume y: "y = Inr (a, g')"
    obtain shuffled g1 where sh: "shuffle g samples = (shuffled, g1)" by (cases "shuffle g samples")
    from step sh y obtain p where p: "for_samples bs nb body shuffled cur cnt acc = Inr p"
      by (cases "for_samples bs nb body shuffled cur cnt acc") auto
    show "\<exists>new. shuffled_batches bs nb collect samples cur cnt acc0 g =
                         Some (Inr (acc0 @ new, g')) \<and>
                      cnt + int (length new) = nb \<and> new \<noteq> [] \<and>
                      fold_steps body new acc = Inr a"
    proof (cases p)
      case (Returned acc1)
      with step sh p y have e: "acc1 = a" "g1 = g'" by auto
      from for_samples_body [OF p, of acc0] Returned obtain new where
        n: "fold_steps body new acc = Inr acc1" "cnt + int (length new) = nb" "new \<noteq> []"
          "for_samples bs nb collect shuffled cur cnt acc0 = Inr (Returned (acc0 @ new))"
        by auto
      have "shuffled_batches bs nb collect samples cur cnt acc0 g = Some (Inr (acc0 @ new, g'))"
        by (subst shuffled_batches.simps) (simp add: sh n e)
      with n e show ?thesis by blast
    next
      case (Running cur1 cnt1 acc1)
      with step sh p have r: "f bs nb body shuffled cur1 cnt1 acc1 g1 = Some y" by simp
      from for_samples_body [OF p, of acc0] Running obtain new1 where
        n1: "fold_steps body new1 acc = Inr acc1" "cnt1 = cnt + int (length new1)"
          "for_samples bs nb collect shuffled cur cnt acc0 = Inr (Running cur1 cnt1 (acc0 @ new1))"
        by auto
      from IH [OF r] y obtain new2 where
        n2: "shuffled_batches bs nb collect shuffled cur1 cnt1 (acc0 @ new1) g1 =
               Some (Inr ((acc0 @ new1) @ new2, g'))"
          "cnt1 + int (length new2) = nb" "new2 \<noteq> []" "fold_steps body new2 acc1 = Inr a"
        by blast
      have "shuffled_batches bs nb collect samples cur cnt acc0 g =
          Some (Inr (acc0 @ (new1 @ new2), g'))"
        by (subst shuffled_batches.simps) (simp add: sh n1(3) n2(1))
      moreover have "cnt + int (length (new1 @ new2)) = nb" using n1 n2 by simp
      moreover have "fold_steps body (new1 @ new2) acc = Inr a"
        using n1 n2 by (simp add: fold_steps_append)
      ultimately show ?thesis using n2(3) by blast
    qed
  qed
  done


lemma for_samples_collect_total: "\<exists>p. for_samples bs nb collect xs cur cnt acc0 = Inr p"
proof (induction xs arbitrary: cur cnt acc0)
  case Nil
  then show ?case by simp
next
  case (Cons x xs)
  have cc: "collect (cur @ [x]) acc0 = Inr (acc0 @ [cur @ [x]])" by (simp add: collect_def)
  show ?case using Cons.IH by (simp add: cc Let_def)
qed

lemma for_samples_collect_all:
  assumes "for_samples bs nb collect xs cur cnt acc0 = Inr p"
  shows "case p of
           Running cur1 cnt1 r \<Rightarrow>
             \<exists>new. r = acc0 @ new \<and> cnt1 = cnt + int (length new) \<and>
               (\<forall>(body :: 'x sample list \<Rightarrow> 'b \<Rightarrow> error + 'b) acc.
                  for_samples bs nb body xs cur cnt acc =
                    (case fold_steps body new acc of
                       Inl e \<Rightarrow> Inl e | Inr acc1 \<Rightarrow> Inr (Running cur1 cnt1 acc1)))
         | Returned r \<Rightarrow>
             \<exists>new. r = acc0 @ new \<and> cnt + int (length new) = nb \<and> new \<noteq> [] \<and>
               (\<forall>(body :: 'x sample list \<Rightarrow> 'b \<Rightarrow> error + 'b) acc.
                  for_samples bs nb body xs cur cnt acc =
                    (case fold_steps body new acc of
                       Inl e \<Rightarrow> Inl e | Inr acc1 \<Rightarrow> Inr (Returned acc1)))"
proof (cases p)
  case (Running cur1 cnt1 r)
  have ex: "\<exists>new. r = acc0 @ new \<and> cnt1 = cnt + int (length new) \<and>
      for_samples bs nb body xs cur cnt acc =
        (case fold_steps body new acc of Inl e \<Rightarrow> Inl e | Inr acc1 \<Rightarrow> Inr (Running cur1 cnt1 acc1))"
    for body :: "'x sample list \<Rightarrow> 'b \<Rightarrow> error + 'b" and acc
    using for_samples_collect_body [OF assms, of body acc] Running by simp
  define new where "new = drop (length acc0) r"
  have "r = acc0 @ new \<and> cnt1 = cnt + int (length new) \<and>
      for_samples bs nb body xs cur cnt acc =
        (case fold_steps body new acc of Inl e \<Rightarrow> Inl e | Inr acc1 \<Rightarrow> Inr (Running cur1 cnt1 acc1))"
    for body :: "'x sample list \<Rightarrow> 'b \<Rightarrow> error + 'b" and acc
    using ex [of body acc] unfolding new_def by auto
  then show ?thesis unfolding Running by (simp only: progress.case) blast
next
  case (Returned r)
  have ex: "\<exists>new. r = acc0 @ new \<and> cnt + int (length new) = nb \<and> new \<noteq> [] \<and>
      for_samples bs nb body xs cur cnt acc =
        (case fold_steps body new acc of Inl e \<Rightarrow> Inl e | Inr acc1 \<Rightarrow> Inr (Returned acc1))"
    for body :: "'x sample list \<Rightarrow> 'b \<Rightarrow> error + 'b" and acc
    using for_samples_collect_body [OF assms, of body acc] Returned by simp
  define new where "new = drop (length acc0) r"
  have "r = acc0 @ new \<and> cnt + int (length new) = nb \<and> new \<noteq> [] \<and>
      for_samples bs nb body xs cur cnt acc =
        (case fold_steps body new acc of Inl e \<Rightarrow> Inl e | Inr acc1 \<Rightarrow> Inr (Returned acc1))"
    for body :: "'x sample list \<Rightarrow> 'b \<Rightarrow> error + 'b" and acc
    using ex [of body acc] unfolding new_def by auto
  then show ?thesis unfolding Returned by (simp only: progress.case) blast
qed

lemma shuffled_batches_collect_body_aux:
  "shuffled_batches bs nb body0 samples cur cnt acc0 g = Some y \<Longrightarrow>
     body0 = collect \<longrightarrow>
       (\<exists>new g'. y = Inr (acc0 @ new, g') \<and> cnt + int (length new) = nb \<and> new \<noteq> [] \<and>
          (\<forall>(body :: 'x sample list \<Rightarrow> 'b \<Rightarrow> error + 'b) acc.
             shuffled_batches bs nb body samples cur cnt acc g =
               Some (map_sum id (\<lambda>a. (a, g')) (fold_steps body new acc))))"
  apply (erule shuffled_batches.raw_induct
      [rotated, where P = "\<lambda>bs nb body0 samples cur cnt acc0 g y.
         body0 = collect \<longrightarrow>
       (\<exists>new g'. y = Inr (acc0 @ new, g') \<and> cnt + int (length new) = nb \<and> new \<noteq> [] \<and>
          (\<forall>(body :: 'x sample list \<Rightarrow> 'b \<Rightarrow> error + 'b) acc.
             shuffled_batches bs nb body samples cur cnt acc g =
               Some (map_sum id (\<lambda>a. (a, g')) (fold_steps body new acc))))"])
  subgoal for f bs nb body0 samples cur cnt acc0 g y
  proof (intro impI)
    assume IH: "\<And>bs nb body0 samples cur cnt acc0 g y.
        f bs nb body0 samples cur cnt acc0 g = Some y \<Longrightarrow>
        body0 = collect \<longrightarrow>
       (\<exists>new g'. y = Inr (acc0 @ new, g') \<and> cnt + int (length new) = nb \<and> new \<noteq> [] \<and>
          (\<forall>(body :: 'x sample list \<Rightarrow> 'b \<Rightarrow> error + 'b) acc.
             shuffled_batches bs nb body samples cur cnt acc g =
               Some (map_sum id (\<lambda>a. (a, g')) (fold_steps body new acc))))"
    assume step: "(case shuffle g samples of
      (shuffled, g1) \<Rightarrow>
        case for_samples bs nb body0 shuffled cur cnt acc0 of
          Inl e \<Rightarrow> Some (Inl e)
        | Inr (Running cur_batch1 batch_count1 acc1) \<Rightarrow>
            f bs nb body0 shuffled cur_batch1 batch_count1 acc1 g1
        | Inr (Returned acc1) \<Rightarrow> Some (Inr (acc1, g1))) = Some y"
    assume b0: "body0 = collect"
    obtain shuffled g1 where sh: "shuffle g samples = (shuffled, g1)" by (cases "shuffle g samples")
    have "\<exists>p. for_samples bs nb collect shuffled cur cnt acc0 = Inr p"
      using for_samples_collect_total by blast
    then obtain p where p: "for_samples bs nb collect shuffled cur cnt acc0 = Inr p" by blast
    show "\<exists>new g'. y = Inr (acc0 @ new, g') \<and> cnt + int (length new) = nb \<and> new \<noteq> [] \<and>
          (\<forall>(body :: 'x sample list \<Rightarrow> 'b \<Rightarrow> error + 'b) acc.
             shuffled_batches bs nb body samples cur cnt acc g =
               Some (map_sum id (\<lambda>a. (a, g')) (fold_steps body new acc)))"
    proof (cases p)
      case (Returned r)
      with step sh p b0 have y: "y = Inr (r, g1)" by auto
      have "\<exists>new. r = acc0 @ new \<and> cnt + int (length new) = nb \<and> new \<noteq> [] \<and>
          (\<forall>(body :: 'x sample list \<Rightarrow> 'b \<Rightarrow> error + 'b) acc.
             for_samples bs nb body shuffled cur cnt acc =
               (case fold_steps body new acc of Inl e \<Rightarrow> Inl e | Inr acc1 \<Rightarrow> Inr (Returned acc1)))"
        using for_samples_collect_all [OF p] Returned by simp
      then obtain new where
        n: "r = acc0 @ new" "cnt + int (length new) = nb" "new \<noteq> []"
          "\<And>(body :: 'x sample list \<Rightarrow> 'b \<Rightarrow> error + 'b) acc.
             for_samples bs nb body shuffled cur cnt acc =
               (case fold_steps body new acc of Inl e \<Rightarrow> Inl e | Inr acc1 \<Rightarrow> Inr (Returned acc1))"
        by blast
      have "shuffled_batches bs nb body samples cur cnt acc g =
               Some (map_sum id (\<lambda>a. (a, g1)) (fold_steps body new acc))"
        for body :: "'x sample list \<Rightarrow> 'b \<Rightarrow> error + 'b" and acc
        by (subst shuffled_batches.simps) (simp add: sh n(4) split: sum.splits)
      with y n show ?thesis by blast
    next
      case (Running cur1 cnt1 r)
      with step sh p b0 have rec: "f bs nb collect shuffled cur1 cnt1 r g1 = Some y" by simp
      have "\<exists>new. r = acc0 @ new \<and> cnt1 = cnt + int (length new) \<and>
          (\<forall>(body :: 'x sample list \<Rightarrow> 'b \<Rightarrow> error + 'b) acc.
             for_samples bs nb body shuffled cur cnt acc =
               (case fold_steps body new acc of
                  Inl e \<Rightarrow> Inl e | Inr acc1 \<Rightarrow> Inr (Running cur1 cnt1 acc1)))"
        using for_samples_collect_all [OF p] Running by simp
      then obtain new1 where
        n1: "r = acc0 @ new1" "cnt1 = cnt + int (length new1)"
          "\<And>(body :: 'x sample list \<Rightarrow> 'b \<Rightarrow> error + 'b) acc.
             for_samples bs nb body shuffled cur cnt acc =
               (case fold_steps body new1 acc of
                  Inl e \<Rightarrow> Inl e | Inr acc1 \<Rightarrow> Inr (Running cur1 cnt1 acc1))"
        by blast
      from IH [OF rec] obtain new2 g' where
        n2: "y = Inr (r @ new2, g')" "cnt1 + int (length new2) = nb" "new2 \<noteq> []"
          "\<And>(body :: 'x sample list \<Rightarrow> 'b \<Rightarrow> error + 'b) acc.
             shuffled_batches bs nb body shuffled cur1 cnt1 acc g1 =
               Some (map_sum id (\<lambda>a. (a, g')) (fold_steps body new2 acc))"
        by blast
      have "shuffled_batches bs nb body samples cur cnt acc g =
               Some (map_sum id (\<lambda>a. (a, g')) (fold_steps body (new1 @ new2) acc))"
        for body :: "'x sample list \<Rightarrow> 'b \<Rightarrow> error + 'b" and acc
        by (subst shuffled_batches.simps)
          (simp add: sh n1(3) n2(4) fold_steps_append split: sum.splits)
      moreover have "y = Inr (acc0 @ (new1 @ new2), g')" using n1 n2 by simp
      moreover have "cnt + int (length (new1 @ new2)) = nb" using n1 n2 by simp
      ultimately show ?thesis using n2(3) by blast
    qed
  qed
  done


lemma sampled_batches_body:
  "sampled_batches n samples bs body acc g = Inr (a, g') \<Longrightarrow>
     \<exists>new. sampled_batches n samples bs collect acc0 g = Inr (acc0 @ new, g') \<and>
       length new = n \<and> fold_steps body new acc = Inr a"
proof (induction n arbitrary: acc acc0 g)
  case 0
  then show ?case by simp
next
  case (Suc n)
  from Suc.prems obtain batch g1 where d: "random_sample g samples bs = Inr (batch, g1)"
    by (cases "random_sample g samples bs") auto
  with Suc.prems obtain acc1 where b: "body batch acc = Inr acc1"
    by (cases "body batch acc") auto
  have cc: "collect batch acc0 = Inr (acc0 @ [batch])" by (simp add: collect_def)
  from Suc.prems d b have "sampled_batches n samples bs body acc1 g1 = Inr (a, g')" by simp
  from Suc.IH [OF this, of "acc0 @ [batch]"] obtain new where
    n: "sampled_batches n samples bs collect (acc0 @ [batch]) g1 = Inr ((acc0 @ [batch]) @ new, g')"
      "length new = n" "fold_steps body new acc1 = Inr a"
    by blast
  show ?case using d b n by (intro exI [of _ "batch # new"]) (simp add: cc)
qed

lemma sampled_batches_collect_body:
  "sampled_batches n samples bs collect acc0 g = Inr (r, g') \<Longrightarrow>
     \<exists>new. r = acc0 @ new \<and> length new = n \<and>
       (\<forall>(body :: 'x sample list \<Rightarrow> 'b \<Rightarrow> error + 'b) acc.
          sampled_batches n samples bs body acc g =
            map_sum id (\<lambda>a. (a, g')) (fold_steps body new acc))"
proof (induction n arbitrary: acc0 g)
  case 0
  then show ?case by simp
next
  case (Suc n)
  from Suc.prems obtain batch g1 where d: "random_sample g samples bs = Inr (batch, g1)"
    by (cases "random_sample g samples bs") auto
  have cc: "collect batch acc0 = Inr (acc0 @ [batch])" by (simp add: collect_def)
  from Suc.prems d have "sampled_batches n samples bs collect (acc0 @ [batch]) g1 = Inr (r, g')"
    by (simp add: cc)
  from Suc.IH [OF this] obtain new where
    n: "r = (acc0 @ [batch]) @ new" "length new = n"
      "\<And>(body :: 'x sample list \<Rightarrow> 'b \<Rightarrow> error + 'b) acc.
          sampled_batches n samples bs body acc g1 =
            map_sum id (\<lambda>a. (a, g')) (fold_steps body new acc)"
    by blast
  have all: "sampled_batches (Suc n) samples bs body acc g =
            map_sum id (\<lambda>a. (a, g')) (fold_steps body (batch # new) acc)"
    for body :: "'x sample list \<Rightarrow> 'b \<Rightarrow> error + 'b" and acc
    using d n(3) by (simp split: sum.splits)
  show ?case
  proof (intro exI [of _ "batch # new"] conjI allI)
    show "r = acc0 @ batch # new" using n(1) by simp
    show "length (batch # new) = Suc n" using n(2) by simp
    show "sampled_batches (Suc n) samples bs body acc g =
            map_sum id (\<lambda>a. (a, g')) (fold_steps body (batch # new) acc)"
      for body :: "'x sample list \<Rightarrow> 'b \<Rightarrow> error + 'b" and acc
      by (rule all)
  qed
qed

lemma mini_batches_body:
  assumes "mini_batches samples bs nb repl body acc g = Some (Inr (a, g'))"
  shows "\<exists>batches. mini_batches samples bs nb repl collect [] g = Some (Inr (batches, g')) \<and>
           length batches = nat nb \<and> fold_steps body batches acc = Inr a"
proof (cases repl)
  case True
  with assms have "sampled_batches (nat nb) samples bs body acc g = Inr (a, g')"
    by (simp add: mini_batches_def)
  from sampled_batches_body [OF this, of "[]"] True show ?thesis
    by (auto simp: mini_batches_def)
next
  case False
  with assms have "shuffled_batches bs nb body samples [] 0 acc g = Some (Inr (a, g'))"
    by (simp add: mini_batches_def)
  from shuffled_batches_body [OF this] obtain new where
    "shuffled_batches bs nb collect samples [] 0 [] g = Some (Inr ([] @ new, g'))"
    "0 + int (length new) = nb" "fold_steps body new acc = Inr a"
    by blast
  with False show ?thesis by (intro exI [of _ new]) (auto simp: mini_batches_def)
qed

lemma mini_batches_collect_body:
  assumes "mini_batches samples bs nb repl collect [] g = Some (Inr (batches, g'))"
  shows "length batches = nat nb \<and> (repl \<or> batches \<noteq> []) \<and>
     (\<forall>(body :: 'x sample list \<Rightarrow> 'b \<Rightarrow> error + 'b) acc.
        mini_batches samples bs nb repl body acc g =
          Some (map_sum id (\<lambda>a. (a, g')) (fold_steps body batches acc)))"
proof (cases repl)
  case True
  with assms have "sampled_batches (nat nb) samples bs collect [] g = Inr (batches, g')"
    by (simp add: mini_batches_def)
  from sampled_batches_collect_body [OF this] True show ?thesis
    by (auto simp: mini_batches_def)
next
  case False
  with assms have "shuffled_batches bs nb collect samples [] 0 [] g = Some (Inr (batches, g'))"
    by (simp add: mini_batches_def)
  from shuffled_batches_collect_body_aux [OF this] obtain new g'' where
    n: "Inr (batches, g') = Inr ([] @ new, g'')" "0 + int (length new) = nb" "new \<noteq> []"
      "\<And>(body :: 'x sample list \<Rightarrow> 'b \<Rightarrow> error + 'b) acc.
         shuffled_batches bs nb body samples [] 0 acc g =
           Some (map_sum id (\<lambda>a. (a, g'')) (fold_steps body new acc))"
    by blast
  then have "batches = new" "g' = g''" by auto
  with n False show ?thesis by (auto simp: mini_batches_def)
qed

section \<open>The batches of the two modes\<close>

lemma arrange_first: "length xs = n \<Longrightarrow> arrange n 0 xs = xs"
proof (induction n arbitrary: xs)
  case 0
  then show ?case by simp
next
  case (Suc n)
  then obtain x rest where xs: "xs = x # rest" by (cases xs) auto
  with Suc.prems have "length rest = n" by simp
  from Suc.IH [OF this] xs show ?case by simp
qed

lemma nth_arrangement_first [simp]: "nth_arrangement 0 xs = xs"
  by (simp add: nth_arrangement_def arrange_first)

lemma rnd_zero [simp]: "rnd (rng_of_list []) = 0"
  by (simp add: rnd_def rng_of_list_def)

lemma advance_zero [simp]: "advance (rng_of_list []) = rng_of_list []"
  by (simp add: advance_def rng_of_list_def)

lemma sampled_batches_first:
  assumes "0 \<le> k" "k \<le> int (length xs)"
  shows "sampled_batches n xs k collect acc (rng_of_list []) =
     Inr (acc @ replicate n (take (nat k) xs), rng_of_list [])"
proof (induction n arbitrary: acc)
  case 0
  then show ?case by simp
next
  case (Suc n)
  have d: "random_sample (rng_of_list []) xs k = Inr (take (nat k) xs, rng_of_list [])"
    using assms by (simp add: random_sample_def)
  have cc: "collect (take (nat k) xs) acc = Inr (acc @ [take (nat k) xs])"
    by (simp add: collect_def)
  show ?case using Suc.IH [of "acc @ [take (nat k) xs]"]
    by (simp add: d cc replicate_app_Cons_same)
qed

lemma sampled_batches_error:
  assumes "k < 0 \<or> int (length xs) < k"
  shows "sampled_batches (Suc n) xs k body acc g = Inl ValueError"
  using assms by (simp add: random_sample_error)

text \<open>
  Claim C4, as amended. With replacement, each batch is the result of one call of
  \<^verbatim>\<open>random.sample(samples, batch_size)\<close>, which draws without repetition. When
  \<open>0 \<le> batch_size \<le> len(samples)\<close> the generator yields exactly \<open>num_batches\<close> batches of
  \<open>batch_size\<close> items, every batch made of the items at pairwise different positions of
  the samples, so without repetition when the samples have none. Every batch is drawn from
  all the samples, so a sample may occur in several batches: for the generator that always
  selects the first outcome, every batch is the same, the first \<open>batch_size\<close> samples.
  When the batch size is negative or larger than the number of samples and a batch is
  asked for, the first draw raises \<open>ValueError\<close> before any batch is yielded: the result is
  that exception whatever the body \<open>body\<close> of the consuming loop is, so the body is never
  run.
\<close>

theorem mini_batches_with_replacement:
  "(0 < num_batches \<and> (batch_size < 0 \<or> int (length samples) < batch_size) \<longrightarrow>
      yielded samples batch_size num_batches True g = Some (Inl ValueError) \<and>
      mini_batches samples batch_size num_batches True body acc g = Some (Inl ValueError)) \<and>
   (0 \<le> batch_size \<and> batch_size \<le> int (length samples) \<longrightarrow>
      (\<exists>batches. yielded samples batch_size num_batches True g = Some (Inr batches) \<and>
         length batches = nat num_batches \<and>
         (\<forall>b\<in>set batches. length b = nat batch_size \<and> at_positions samples b \<and>
            (distinct samples \<longrightarrow> distinct b))) \<and>
      yielded samples batch_size num_batches True (rng_of_list []) =
        Some (Inr (replicate (nat num_batches) (take (nat batch_size) samples))))"
proof (intro conjI impI)
  assume a: "0 < num_batches \<and> (batch_size < 0 \<or> int (length samples) < batch_size)"
  then obtain n where n: "nat num_batches = Suc n" by (cases "nat num_batches") auto
  from a have e: "batch_size < 0 \<or> int (length samples) < batch_size" by simp
  show "yielded samples batch_size num_batches True g = Some (Inl ValueError)"
    using sampled_batches_error [OF e, of n collect "[]" g]
    by (simp only: yielded_def mini_batches_def n if_True option.map map_sum.simps id_apply)
  show "mini_batches samples batch_size num_batches True body acc g = Some (Inl ValueError)"
    using sampled_batches_error [OF e, of n body acc g]
    by (simp only: mini_batches_def n if_True)
next
  assume a: "0 \<le> batch_size \<and> batch_size \<le> int (length samples)"
  then have k: "0 \<le> batch_size" "batch_size \<le> int (length samples)" by auto
  from sampled_batches_collect [OF k, of "nat num_batches" "[]" g] obtain bs g' where
    bs: "sampled_batches (nat num_batches) samples batch_size collect [] g = Inr (bs, g')"
      "length bs = nat num_batches" "\<forall>b\<in>set bs. length b = nat batch_size \<and> at_positions samples b"
    by auto
  have d: "distinct b" if "b \<in> set bs" "distinct samples" for b
  proof -
    from bs(3) that obtain ps where "distinct ps" "set ps \<subseteq> {..<length samples}" "b = map ((!) samples) ps"
      unfolding at_positions_def by blast
    then show ?thesis using that(2)
      by (auto simp: distinct_map inj_on_def nth_eq_iff_index_eq subset_iff)
  qed
  have "yielded samples batch_size num_batches True g = Some (Inr bs)"
    using bs(1) by (simp add: yielded_def mini_batches_def)
  then show "\<exists>batches. yielded samples batch_size num_batches True g = Some (Inr batches) \<and>
         length batches = nat num_batches \<and>
         (\<forall>b\<in>set batches. length b = nat batch_size \<and> at_positions samples b \<and>
            (distinct samples \<longrightarrow> distinct b))"
    using bs d by blast
  show "yielded samples batch_size num_batches True (rng_of_list []) =
        Some (Inr (replicate (nat num_batches) (take (nat batch_size) samples)))"
    using sampled_batches_first [OF k, of "nat num_batches" "[]"]
    by (simp add: yielded_def mini_batches_def)
qed

theorem mini_batches_with_replacement_witness:
  "yielded [(''a'', 0), (''b'', 1), (''c'', 2)] 2 2 True (rng_of_list [0, 2]) =
     Some (Inr [[(''a'', 0), (''b'', 1)], [(''c'', 2), (''a'', 0)]]) \<and>
   yielded [(''a'', 0), (''b'', 1), (''c'', 2)] 2 2 True (rng_of_list []) =
     Some (Inr [[(''a'', 0), (''b'', 1)], [(''a'', 0), (''b'', 1)]]) \<and>
   mini_batches [(''a'', 0)] 2 1 True (\<lambda>batch acc. Inl IndexError) () (rng_of_list []) =
     Some (Inl ValueError)"
proof (intro conjI)
  let ?s = "[(''a'', 0::int), (''b'', 1), (''c'', 2)]"
  have v: "yielded ?s 2 2 True (rng_of_list [0, 2]) =
      Some (Inr [[(''a'', 0), (''b'', 1)], [(''c'', 2), (''a'', 0)]])"
    by code_simp
  from mini_batches_with_replacement
    [where samples = ?s and batch_size = 2 and num_batches = 2 and g = "rng_of_list [0, 2]"]
  have "\<exists>batches. yielded ?s 2 2 True (rng_of_list [0, 2]) = Some (Inr batches) \<and>
      length batches = nat 2 \<and>
      (\<forall>b\<in>set batches. length b = nat 2 \<and> at_positions ?s b \<and> (distinct ?s \<longrightarrow> distinct b))"
    by simp
  with v show "yielded ?s 2 2 True (rng_of_list [0, 2]) =
      Some (Inr [[(''a'', 0), (''b'', 1)], [(''c'', 2), (''a'', 0)]])"
    by simp
  from mini_batches_with_replacement
    [where samples = ?s and batch_size = 2 and num_batches = 2]
  show "yielded ?s 2 2 True (rng_of_list []) =
     Some (Inr [[(''a'', 0), (''b'', 1)], [(''a'', 0), (''b'', 1)]])"
    by (simp add: numeral_2_eq_2)
  from mini_batches_with_replacement
    [where samples = "[(''a'', 0)]" and batch_size = 2 and num_batches = 1
      and body = "\<lambda>batch acc. Inl IndexError" and acc = "()" and g = "rng_of_list []"]
  show "mini_batches [(''a'', 0)] 2 1 True (\<lambda>batch acc. Inl IndexError) () (rng_of_list []) =
     Some (Inl ValueError)"
    by simp
qed

text \<open>
  One sample, batches of two: with replacement in the sense of the claim the batch would
  hold the sample twice; \<^verbatim>\<open>random.sample\<close> raises \<open>ValueError\<close> instead.
\<close>

theorem mini_batches_with_replacement_counterexample:
  "yielded [(''a'', 0)] 2 1 True (rng_of_list []) = Some (Inl ValueError)"
  by (simp add: yielded_def mini_batches_def random_sample_def)

lemma for_samples_chunks:
  "for_samples bs nb collect xs cur cnt acc0 = Inr p \<Longrightarrow>
     (case p of
        Running cur1 cnt1 r \<Rightarrow> \<exists>new. r = acc0 @ new \<and> concat new @ cur1 = cur @ xs
      | Returned r \<Rightarrow>
          \<exists>new sfx. r = acc0 @ new \<and> concat new @ sfx = cur @ xs \<and> length sfx < length xs)"
proof (induction xs arbitrary: cur cnt acc0)
  case Nil
  then show ?case by auto
next
  case (Cons x xs)
  let ?c = "cur @ [x]"
  have cc: "collect ?c acc0 = Inr (acc0 @ [?c])" by (simp add: collect_def)
  show ?case
  proof (cases "int (length ?c) < bs")
    case True
    with Cons.prems have "for_samples bs nb collect xs ?c cnt acc0 = Inr p" by simp
    from Cons.IH [OF this] show ?thesis
    proof (cases p)
      case (Running cur1 cnt1 r)
      assume "case p of
          Running cur1 cnt1 r \<Rightarrow> \<exists>new. r = acc0 @ new \<and> concat new @ cur1 = ?c @ xs
        | Returned r \<Rightarrow>
            \<exists>new sfx. r = acc0 @ new \<and> concat new @ sfx = ?c @ xs \<and> length sfx < length xs"
      with Running show ?thesis by auto
    next
      case (Returned r)
      assume "case p of
          Running cur1 cnt1 r \<Rightarrow> \<exists>new. r = acc0 @ new \<and> concat new @ cur1 = ?c @ xs
        | Returned r \<Rightarrow>
            \<exists>new sfx. r = acc0 @ new \<and> concat new @ sfx = ?c @ xs \<and> length sfx < length xs"
      with Returned obtain new sfx where
        "r = acc0 @ new" "concat new @ sfx = ?c @ xs" "length sfx < length xs" by auto
      then have "r = acc0 @ new \<and> concat new @ sfx = cur @ x # xs \<and> length sfx < length (x # xs)"
        by simp
      then show ?thesis unfolding Returned by (simp only: progress.case) blast
    qed
  next
    case False
    show ?thesis
    proof (cases "cnt + 1 = nb")
      case True
      with False Cons.prems have p: "p = Returned (acc0 @ [?c])" by (simp add: cc)
      show ?thesis unfolding p by (simp only: progress.case) (rule exI [of _ "[?c]"], rule exI [of _ xs], simp)
    next
      case ne: False
      with False Cons.prems have "for_samples bs nb collect xs [] (cnt + 1) (acc0 @ [?c]) = Inr p"
        by (simp add: cc)
      from Cons.IH [OF this] show ?thesis
      proof (cases p)
        case (Running cur1 cnt1 r)
        assume "case p of
            Running cur1 cnt1 r \<Rightarrow> \<exists>new. r = (acc0 @ [?c]) @ new \<and> concat new @ cur1 = [] @ xs
          | Returned r \<Rightarrow>
              \<exists>new sfx. r = (acc0 @ [?c]) @ new \<and> concat new @ sfx = [] @ xs \<and> length sfx < length xs"
        with Running obtain new where "r = (acc0 @ [?c]) @ new" "concat new @ cur1 = xs" by auto
        then have "r = acc0 @ (?c # new) \<and> concat (?c # new) @ cur1 = cur @ x # xs" by simp
        then show ?thesis unfolding Running by (simp only: progress.case) blast
      next
        case (Returned r)
        assume "case p of
            Running cur1 cnt1 r \<Rightarrow> \<exists>new. r = (acc0 @ [?c]) @ new \<and> concat new @ cur1 = [] @ xs
          | Returned r \<Rightarrow>
              \<exists>new sfx. r = (acc0 @ [?c]) @ new \<and> concat new @ sfx = [] @ xs \<and> length sfx < length xs"
        with Returned obtain new sfx where
          "r = (acc0 @ [?c]) @ new" "concat new @ sfx = xs" "length sfx < length xs" by auto
        then have "r = acc0 @ (?c # new) \<and> concat (?c # new) @ sfx = cur @ x # xs \<and>
            length sfx < length (x # xs)" by simp
        then show ?thesis unfolding Returned by (simp only: progress.case) blast
      qed
    qed
  qed
qed

lemma shuffled_batches_chunks_aux:
  "shuffled_batches bs nb body0 samples cur cnt acc0 g = Some y \<Longrightarrow>
     body0 = collect \<longrightarrow>
       (\<exists>new g' shuffles sfx. y = Inr (acc0 @ new, g') \<and>
          concat new @ sfx = cur @ concat shuffles \<and>
          (\<forall>sh\<in>set shuffles. mset sh = mset samples) \<and> length sfx < length samples)"
  apply (erule shuffled_batches.raw_induct
      [rotated, where P = "\<lambda>bs nb body0 samples cur cnt acc0 g y.
         body0 = collect \<longrightarrow>
       (\<exists>new g' shuffles sfx. y = Inr (acc0 @ new, g') \<and>
          concat new @ sfx = cur @ concat shuffles \<and>
          (\<forall>sh\<in>set shuffles. mset sh = mset samples) \<and> length sfx < length samples)"])
  subgoal for f bs nb body0 samples cur cnt acc0 g y
  proof (intro impI)
    assume IH: "\<And>bs nb body0 samples cur cnt acc0 g y.
        f bs nb body0 samples cur cnt acc0 g = Some y \<Longrightarrow>
        body0 = collect \<longrightarrow>
       (\<exists>new g' shuffles sfx. y = Inr (acc0 @ new, g') \<and>
          concat new @ sfx = cur @ concat shuffles \<and>
          (\<forall>sh\<in>set shuffles. mset sh = mset samples) \<and> length sfx < length samples)"
    assume step: "(case shuffle g samples of
      (shuffled, g1) \<Rightarrow>
        case for_samples bs nb body0 shuffled cur cnt acc0 of
          Inl e \<Rightarrow> Some (Inl e)
        | Inr (Running cur_batch1 batch_count1 acc1) \<Rightarrow>
            f bs nb body0 shuffled cur_batch1 batch_count1 acc1 g1
        | Inr (Returned acc1) \<Rightarrow> Some (Inr (acc1, g1))) = Some y"
    assume b0: "body0 = collect"
    obtain shuffled g1 where sh: "shuffle g samples = (shuffled, g1)" by (cases "shuffle g samples")
    from shuffle_mset [OF sh] have ms: "mset shuffled = mset samples" .
    then have len: "length shuffled = length samples" by (metis size_mset)
    have "\<exists>p. for_samples bs nb collect shuffled cur cnt acc0 = Inr p"
      using for_samples_collect_total by blast
    then obtain p where p: "for_samples bs nb collect shuffled cur cnt acc0 = Inr p" by blast
    show "\<exists>new g' shuffles sfx. y = Inr (acc0 @ new, g') \<and>
          concat new @ sfx = cur @ concat shuffles \<and>
          (\<forall>sh\<in>set shuffles. mset sh = mset samples) \<and> length sfx < length samples"
    proof (cases p)
      case (Returned r)
      with step sh p b0 have y: "y = Inr (r, g1)" by auto
      from for_samples_chunks [OF p] Returned obtain new sfx where
        "r = acc0 @ new" "concat new @ sfx = cur @ shuffled" "length sfx < length shuffled"
        by auto
      then have "y = Inr (acc0 @ new, g1) \<and> concat new @ sfx = cur @ concat [shuffled] \<and>
          (\<forall>sh\<in>set [shuffled]. mset sh = mset samples) \<and> length sfx < length samples"
        using y ms len by simp
      then show ?thesis by blast
    next
      case (Running cur1 cnt1 r)
      with step sh p b0 have rec: "f bs nb collect shuffled cur1 cnt1 r g1 = Some y" by simp
      from for_samples_chunks [OF p] Running obtain new1 where
        n1: "r = acc0 @ new1" "concat new1 @ cur1 = cur @ shuffled"
        by auto
      from IH [OF rec] obtain new2 g' shuffles sfx where
        n2: "y = Inr (r @ new2, g')" "concat new2 @ sfx = cur1 @ concat shuffles"
          "\<forall>sh\<in>set shuffles. mset sh = mset shuffled" "length sfx < length shuffled"
        by blast
      have "concat (new1 @ new2) @ sfx = concat new1 @ cur1 @ concat shuffles"
        using n2(2) by simp
      also have "\<dots> = cur @ concat (shuffled # shuffles)" using n1(2) by simp
      finally have "concat (new1 @ new2) @ sfx = cur @ concat (shuffled # shuffles)" .
      moreover have "y = Inr (acc0 @ (new1 @ new2), g')" using n1 n2 by simp
      moreover have "\<forall>sh\<in>set (shuffled # shuffles). mset sh = mset samples"
        using n2(3) ms by simp
      moreover have "length sfx < length samples" using n2(4) len by simp
      ultimately show ?thesis by blast
    qed
  qed
  done


lemma nth_concat_equal:
  "\<forall>b\<in>set bs. length b = B \<Longrightarrow> j < length bs \<Longrightarrow>
     bs ! j = take B (drop (j * B) (concat bs))"
proof (induction bs arbitrary: j)
  case Nil
  then show ?case by simp
next
  case (Cons b bs)
  show ?case
  proof (cases j)
    case 0
    then show ?thesis using Cons.prems by simp
  next
    case (Suc i)
    then have "i < length bs" using Cons.prems by simp
    with Cons.IH [of i] Cons.prems(1) have "bs ! i = take B (drop (i * B) (concat bs))" by simp
    then show ?thesis unfolding Suc using Cons.prems(1) by simp
  qed
qed

lemma drop_concat_equal:
  "\<forall>xs\<in>set xss. length xs = n \<Longrightarrow> q < length xss \<Longrightarrow> r \<le> n \<Longrightarrow>
     drop (q * n + r) (concat xss) = drop r (xss ! q) @ concat (drop (Suc q) xss)"
proof (induction xss arbitrary: q)
  case Nil
  then show ?case by simp
next
  case (Cons xs xss)
  show ?case
  proof (cases q)
    case 0
    then show ?thesis using Cons.prems by simp
  next
    case (Suc i)
    then have "i < length xss" using Cons.prems by simp
    with Cons.IH [of i] Cons.prems have
      "drop (i * n + r) (concat xss) = drop r (xss ! i) @ concat (drop (Suc i) xss)"
      by simp
    then show ?thesis unfolding Suc using Cons.prems(1) by (simp add: add.assoc)
  qed
qed

lemma slice_within_one:
  assumes eq: "\<forall>xs\<in>set xss. length xs = n \<and> distinct xs"
    and n: "0 < n" and B: "0 < B"
    and fits: "Suc j * B \<le> length (concat xss)"
    and same: "(j * B) div n = (Suc j * B - 1) div n"
  shows "distinct (take B (drop (j * B) (concat xss)))"
proof -
  let ?q = "(j * B) div n" and ?r = "(j * B) mod n"
  have len: "length (concat xss) = length xss * n"
    using eq by (induction xss) simp_all
  have jb: "j * B = ?q * n + ?r" by simp
  have "j * B < Suc j * B" using B by simp
  with fits len have "?q * n + ?r < length xss * n" using jb by linarith
  then have "?q * n < length xss * n" by linarith
  then have q: "?q < length xss" by simp
  have "(Suc j * B - 1) div n < Suc ?q" using same by simp
  then have "Suc j * B - 1 < Suc ?q * n" using n by (simp add: div_less_iff_less_mult)
  then have "j * B + B \<le> ?q * n + n" using B by simp
  then have rB: "?r + B \<le> n" using jb by linarith
  then have r: "?r \<le> n" by simp
  have "drop (j * B) (concat xss) = drop (?q * n + ?r) (concat xss)" using jb by simp
  also have "\<dots> = drop ?r (xss ! ?q) @ concat (drop (Suc ?q) xss)"
    using drop_concat_equal [of xss n ?q ?r] eq q r by blast
  finally have "take B (drop (j * B) (concat xss)) =
      take B (drop ?r (xss ! ?q) @ concat (drop (Suc ?q) xss))"
    by simp
  also have "\<dots> = take B (drop ?r (xss ! ?q))"
  proof -
    have "length (xss ! ?q) = n" using eq q by simp
    then have "B \<le> length (drop ?r (xss ! ?q))" using rB by simp
    then show ?thesis by simp
  qed
  finally have "take B (drop (j * B) (concat xss)) = take B (drop ?r (xss ! ?q))" .
  moreover have "distinct (xss ! ?q)" using eq q by simp
  ultimately show ?thesis by simp
qed

text \<open>
  Claim C5, as amended. Without replacement, for at least one sample, a batch size of at
  least one and at least one batch asked for, the generator returns after exactly
  \<open>num_batches\<close> batches, and the batches are contiguous, non-overlapping slices of the
  concatenation of successive full shuffles of the samples: batch \<open>j\<close> is the items
  \<open>j * batch_size, \<dots>, (j + 1) * batch_size - 1\<close> of that concatenation, and the batches
  together use it up to a rest shorter than one shuffle. When the samples have no
  repetition, every batch that lies within one shuffle has none, in particular every batch
  when the batch size divides the number of samples. The batch under construction is kept
  across reshuffles, and a batch that spans two shuffles may hold a sample twice, as the
  counterexample shows.
\<close>

theorem mini_batches_without_replacement:
  assumes "samples \<noteq> []" "1 \<le> batch_size" "1 \<le> num_batches"
  shows "\<exists>batches shuffles sfx.
     yielded samples batch_size num_batches False g = Some (Inr batches) \<and>
     length batches = nat num_batches \<and>
     (\<forall>sh\<in>set shuffles. mset sh = mset samples) \<and>
     concat batches @ sfx = concat shuffles \<and> length sfx < length samples \<and>
     (\<forall>j<length batches.
        batches ! j = take (nat batch_size) (drop (j * nat batch_size) (concat shuffles)) \<and>
        length (batches ! j) = nat batch_size \<and>
        (distinct samples \<and>
         (j * nat batch_size) div length samples = (Suc j * nat batch_size - 1) div length samples \<longrightarrow>
           distinct (batches ! j))) \<and>
     (distinct samples \<and> batch_size dvd int (length samples) \<longrightarrow> (\<forall>b\<in>set batches. distinct b))"
proof -
  let ?B = "nat batch_size"
  have B: "nat (max 1 batch_size) = ?B" using assms(2) by simp
  have c: "length ([]::'a sample list) < nat (max 1 batch_size)" using assms(2) by simp
  have n: "(0::int) < num_batches" using assms(3) by simp
  have sub: "set ([]::'a sample list) \<subseteq> set samples" by simp
  from shuffled_batches_collect [OF assms(1) c n sub, of "[]" g] obtain batches g' where
    r: "shuffled_batches batch_size num_batches collect samples [] 0 [] g = Some (Inr ([] @ batches, g'))"
    and count: "0 + int (length batches) = num_batches"
    and good: "\<forall>b\<in>set batches. length b = nat (max 1 batch_size) \<and> set b \<subseteq> set samples"
    and dist: "[] = ([]::'a sample list) \<and> nat (max 1 batch_size) dvd length samples \<and> distinct samples \<longrightarrow>
              (\<forall>b\<in>set batches. distinct b)"
    by blast
  from shuffled_batches_chunks_aux [OF r] obtain new g'' shuffles sfx where
    ch: "Inr ([] @ batches, g') = Inr ([] @ new, g'')" "concat new @ sfx = [] @ concat shuffles"
      "\<forall>sh\<in>set shuffles. mset sh = mset samples" "length sfx < length samples"
    by blast
  then have cc: "concat batches @ sfx = concat shuffles" by simp
  have lens: "\<forall>b\<in>set batches. length b = ?B" using good B by simp
  have y: "yielded samples batch_size num_batches False g = Some (Inr batches)"
    using r by (simp add: yielded_def mini_batches_def)
  have len: "length batches = nat num_batches" using count by simp
  have total: "length (concat batches) = length batches * ?B"
    using length_concat_const [OF lens] .
  have slice: "batches ! j = take ?B (drop (j * ?B) (concat shuffles))" if j: "j < length batches" for j
  proof -
    have "Suc j * ?B \<le> length batches * ?B" using j by (simp add: Suc_leI mult_le_mono1 del: mult_Suc)
    then have fit: "j * ?B + ?B \<le> length (concat batches)" using total by simp
    have "take ?B (drop (j * ?B) (concat batches @ sfx)) = take ?B (drop (j * ?B) (concat batches))"
      using fit by simp
    then show ?thesis using nth_concat_equal [OF lens j] cc by simp
  qed
  have within: "distinct (batches ! j)"
    if j: "j < length batches" and d: "distinct samples"
      and same: "(j * ?B) div length samples = (Suc j * ?B - 1) div length samples" for j
  proof -
    have eq: "\<forall>xs\<in>set shuffles. length xs = length samples \<and> distinct xs"
    proof
      fix xs assume "xs \<in> set shuffles"
      with ch(3) have "mset xs = mset samples" by simp
      then show "length xs = length samples \<and> distinct xs"
        using d by (metis size_mset mset_eq_imp_distinct_iff)
    qed
    have "Suc j * ?B \<le> length batches * ?B" using j by (simp add: Suc_leI mult_le_mono1 del: mult_Suc)
    also have "\<dots> \<le> length (concat shuffles)" using total cc by (metis length_append le_add1)
    finally have fits: "Suc j * ?B \<le> length (concat shuffles)" .
    have "distinct (take ?B (drop (j * ?B) (concat shuffles)))"
      using slice_within_one [OF eq _ _ fits same] assms(1,2) by simp
    then show ?thesis using slice [OF j] by simp
  qed
  have dvd: "\<forall>b\<in>set batches. distinct b" if "distinct samples \<and> batch_size dvd int (length samples)"
  proof -
    have "?B dvd length samples" using that assms(2) by (simp add: nat_dvd_iff)
    with dist that B show ?thesis by simp
  qed
  have per: "\<forall>j<length batches.
        batches ! j = take ?B (drop (j * ?B) (concat shuffles)) \<and>
        length (batches ! j) = ?B \<and>
        (distinct samples \<and> (j * ?B) div length samples = (Suc j * ?B - 1) div length samples \<longrightarrow>
           distinct (batches ! j))"
  proof (intro allI impI conjI)
    fix j assume j: "j < length batches"
    show "batches ! j = take ?B (drop (j * ?B) (concat shuffles))" by (rule slice [OF j])
    show "length (batches ! j) = ?B" using lens j by (meson nth_mem)
    show "distinct (batches ! j)"
      if "distinct samples \<and> (j * ?B) div length samples = (Suc j * ?B - 1) div length samples"
      using within [OF j] that by blast
  qed
  from y len ch(3) cc ch(4) per dvd show ?thesis by blast
qed

theorem mini_batches_without_replacement_witness:
  "\<exists>batches. yielded [(''a'', 0), (''b'', 1), (''c'', 2)] 2 1 False (rng_of_list [2]) =
       Some (Inr batches) \<and> length batches = 1 \<and> distinct (batches ! 0)"
proof -
  let ?s = "[(''a'', 0::int), (''b'', 1), (''c'', 2)]"
  have "?s \<noteq> []" "(1::int) \<le> 2" "(1::int) \<le> 1" by simp_all
  from mini_batches_without_replacement [OF this, of "rng_of_list [2]"]
  obtain batches where
    y: "yielded ?s 2 1 False (rng_of_list [2]) = Some (Inr batches)" "length batches = nat 1"
    and per: "\<forall>j<length batches. length (batches ! j) = nat 2 \<and>
        (distinct ?s \<and> (j * nat 2) div length ?s = (Suc j * nat 2 - 1) div length ?s \<longrightarrow>
           distinct (batches ! j))"
    by blast
  from y(2) per have "distinct (batches ! 0)" by simp
  with y show ?thesis by auto
qed

text \<open>
  Three distinct samples, batches of two: the second batch spans two shuffles and holds
  the same sample twice.
\<close>

theorem mini_batches_without_replacement_counterexample:
  "distinct [(''a'', 0::int), (''b'', 1), (''c'', 2)] \<and>
   yielded [(''a'', 0), (''b'', 1), (''c'', 2)] 2 2 False (rng_of_list [0, 2]) =
     Some (Inr [[(''a'', 0), (''b'', 1)], [(''c'', 2), (''c'', 2)]])"
proof
  show "distinct [(''a'', 0::int), (''b'', 1), (''c'', 2)]" by simp
  show "yielded [(''a'', 0), (''b'', 1), (''c'', 2)] 2 2 False (rng_of_list [0, 2]) =
     Some (Inr [[(''a'', 0), (''b'', 1)], [(''c'', 2), (''c'', 2)]])"
    unfolding yielded_def mini_batches_def
    apply (simp only: if_False)
    apply (subst shuffled_batches.simps)
    apply (simp add: shuffle_def arrangement_abc_0 collect_def rnd_def rng_of_list_def)
    apply (subst shuffled_batches.simps)
    apply (simp add: shuffle_def arrangement_abc_2 collect_def rnd_def advance_def rng_of_list_def)
    done
qed

text \<open>
  Claim C6, as amended. Without replacement nothing checks the number of samples against
  the batch size. With at least one sample and at least one batch asked for, the generator
  raises no exception and yields exactly \<open>num_batches\<close> batches of \<open>max 1 batch_size\<close>
  items; when there are fewer samples than \<open>batch_size\<close>, every batch is assembled
  across reshuffles and holds some sample more than once. With no sample at all the loop
  never ends: whatever the body \<open>body\<close> of the consuming loop is, the result is \<open>None\<close>, so
  no batch reaches the consumer and no exception is raised.
\<close>

theorem mini_batches_few_samples:
  "(samples \<noteq> [] \<and> 1 \<le> num_batches \<longrightarrow>
      (\<exists>batches. yielded samples batch_size num_batches False g = Some (Inr batches) \<and>
         length batches = nat num_batches \<and>
         (\<forall>b\<in>set batches. length b = nat (max 1 batch_size) \<and> set b \<subseteq> set samples \<and>
            (int (length samples) < batch_size \<longrightarrow> \<not> distinct b)))) \<and>
   (samples = [] \<longrightarrow>
      yielded samples batch_size num_batches False g = None \<and>
      mini_batches samples batch_size num_batches False body acc g = None)"
proof (intro conjI impI)
  assume a: "samples \<noteq> [] \<and> 1 \<le> num_batches"
  have c: "length ([]::'a sample list) < nat (max 1 batch_size)" by simp
  have n: "(0::int) < num_batches" using a by simp
  have sub: "set ([]::'a sample list) \<subseteq> set samples" by simp
  have ne: "samples \<noteq> []" using a by simp
  from shuffled_batches_collect [OF ne c n sub, of "[]" g] obtain new g' where
    r: "shuffled_batches batch_size num_batches collect samples [] 0 [] g = Some (Inr ([] @ new, g'))"
    and count: "0 + int (length new) = num_batches"
    and good: "\<forall>b\<in>set new. length b = nat (max 1 batch_size) \<and> set b \<subseteq> set samples"
    by blast
  have rep: "\<not> distinct b" if "b \<in> set new" "int (length samples) < batch_size" for b
  proof
    assume d: "distinct b"
    have "length b = card (set b)" using d by (simp add: distinct_card)
    also have "\<dots> \<le> card (set samples)" using good that(1) by (simp add: card_mono)
    also have "\<dots> \<le> length samples" by (rule card_length)
    finally have "length b \<le> length samples" .
    moreover have "length b = nat (max 1 batch_size)" using good that(1) by simp
    ultimately show False using that(2) by simp
  qed
  have "yielded samples batch_size num_batches False g = Some (Inr new)"
    using r by (simp add: yielded_def mini_batches_def)
  moreover have "length new = nat num_batches" using count by simp
  ultimately show "\<exists>batches. yielded samples batch_size num_batches False g = Some (Inr batches) \<and>
         length batches = nat num_batches \<and>
         (\<forall>b\<in>set batches. length b = nat (max 1 batch_size) \<and> set b \<subseteq> set samples \<and>
            (int (length samples) < batch_size \<longrightarrow> \<not> distinct b))"
    using good rep by blast
next
  assume "samples = []"
  then show "yielded samples batch_size num_batches False g = None"
    by (simp add: yielded_def mini_batches_def shuffled_batches_empty)
next
  assume "samples = []"
  then show "mini_batches samples batch_size num_batches False body acc g = None"
    by (simp add: mini_batches_def shuffled_batches_empty)
qed

theorem mini_batches_few_samples_witness:
  "(\<exists>batches. yielded [(''a'', 0)] 2 1 False (rng_of_list []) = Some (Inr batches) \<and>
      length batches = 1 \<and> (\<forall>b\<in>set batches. length b = 2 \<and> \<not> distinct b)) \<and>
   mini_batches ([]::string sample list) 2 1 False (\<lambda>batch acc. Inl IndexError) ()
     (rng_of_list []) = None"
  using mini_batches_few_samples
      [where samples = "[(''a'', 0)]" and batch_size = 2 and num_batches = 1 and g = "rng_of_list []"]
    mini_batches_few_samples
      [where samples = "[]::string sample list" and batch_size = 2 and num_batches = 1
         and g = "rng_of_list []" and body = "\<lambda>batch acc. Inl IndexError" and acc = "()"]
  by fastforce

text \<open>One sample, batches of two: a batch is yielded, and no exception raised.\<close>

theorem mini_batches_few_samples_counterexample:
  "int (length [(''a'', 0::int)]) < 2 \<and>
   yielded [(''a'', 0)] 2 1 False (rng_of_list []) = Some (Inr [[(''a'', 0), (''a'', 0)]])"
proof
  show "int (length [(''a'', 0::int)]) < 2" by simp
  show "yielded [(''a'', 0)] 2 1 False (rng_of_list []) = Some (Inr [[(''a'', 0), (''a'', 0)]])"
    unfolding yielded_def mini_batches_def
    apply (simp only: if_False)
    apply (subst shuffled_batches.simps)
    apply (simp add: shuffle_def nth_arrangement_def collect_def)
    apply (subst shuffled_batches.simps)
    apply (simp add: shuffle_def nth_arrangement_def collect_def)
    done
qed

section \<open>The Reptile training step\<close>

lemma dom_export [simp]: "dom (export_variables scope s) = scope"
  by (auto simp: export_variables_def dom_def)

lemma export_import:
  "dom snap = scope \<Longrightarrow> export_variables scope (import_variables scope snap s) = snap"
  by (rule ext) (auto simp: export_variables_def import_variables_def dom_def split: option.splits)

lemma export_import_export [simp]:
  "export_variables scope (import_variables scope (export_variables scope s) s1) =
     export_variables scope s"
  by (simp add: export_import)

lemma add_vars_ok:
  "dom a = dom b \<Longrightarrow> \<exists>c. add_vars a b = Inr c \<and> dom c = dom a"
  by (auto simp: add_vars_def dom_def split: option.splits)

lemma subtract_vars_ok:
  "dom a = dom b \<Longrightarrow> \<exists>c. subtract_vars a b = Inr c \<and> dom c = dom a"
  by (auto simp: subtract_vars_def dom_def split: option.splits)

lemma dom_scale_vars [simp]: "dom (scale_vars a c) = dom a"
  by (auto simp: scale_vars_def dom_def)

lemma sum_vars_ok:
  "\<forall>v\<in>set vs. dom v = dom a \<Longrightarrow> \<exists>c. sum_vars a vs = Inr c \<and> dom c = dom a"
proof (induction vs arbitrary: a)
  case Nil
  then show ?case by simp
next
  case (Cons v vs)
  then have "dom a = dom v" by simp
  from add_vars_ok [OF this] obtain c where c: "add_vars a v = Inr c" "dom c = dom a" by blast
  with Cons.prems have "\<forall>w\<in>set vs. dom w = dom c" by simp
  from Cons.IH [OF this] c show ?case by auto
qed

lemma average_vars_ok:
  assumes "vs \<noteq> []" "\<forall>v\<in>set vs. dom v = D"
  shows "\<exists>c. average_vars vs = Inr c \<and> dom c = D"
proof -
  from assms(1) obtain v rest where vs: "vs = v # rest" by (cases vs) auto
  with assms(2) have "\<forall>w\<in>set rest. dom w = dom v" "dom v = D" by auto
  from sum_vars_ok [OF this(1)] obtain c where "sum_vars v rest = Inr c" "dom c = dom v" by blast
  with vs \<open>dom v = D\<close> show ?thesis by (simp add: average_vars_def)
qed

lemma interpolate_vars_ok:
  assumes "dom a = dom b"
  shows "\<exists>v. interpolate_vars a b t = Inr v \<and> dom v = dom a"
proof -
  from subtract_vars_ok [of b a] assms obtain d where d: "subtract_vars b a = Inr d" "dom d = dom b"
    by auto
  then have "dom a = dom (scale_vars d t)" using assms by simp
  from add_vars_ok [OF this] d show ?thesis by (auto simp: interpolate_vars_def)
qed

lemma reptile_tasks_trace:
  "reptile_tasks n adaptation scope old (s, nv, g) = Some (Inr (s', nv', g')) \<Longrightarrow>
     \<exists>starts adapted gens. length starts = n \<and> length adapted = n \<and> length gens = Suc n \<and>
        gens ! 0 = g \<and> gens ! n = g' \<and>
        nv' = nv @ map (export_variables scope) adapted \<and>
        s' = (if n = 0 then s else import_variables scope old (last adapted)) \<and>
        (\<forall>m<n. starts ! m = (if m = 0 then s else import_variables scope old (adapted ! (m - 1))) \<and>
           adaptation (starts ! m) (gens ! m) = Some (Inr (adapted ! m, gens ! Suc m)))"
proof (induction n arbitrary: s nv g)
  case 0
  then show ?case by (intro exI [of _ "[]"] exI [of _ "[g]"]) simp
next
  case (Suc n)
  from Suc.prems obtain s1 g1 where a: "adaptation s g = Some (Inr (s1, g1))"
    by (auto split: option.splits sum.splits)
  let ?s2 = "import_variables scope old s1"
  from Suc.prems a have "reptile_tasks n adaptation scope old
      (?s2, nv @ [export_variables scope s1], g1) = Some (Inr (s', nv', g'))"
    by simp
  from Suc.IH [OF this] obtain starts adapted gens where
    h: "length starts = n" "length adapted = n" "length gens = Suc n" "gens ! 0 = g1" "gens ! n = g'"
      "nv' = (nv @ [export_variables scope s1]) @ map (export_variables scope) adapted"
      "s' = (if n = 0 then ?s2 else import_variables scope old (last adapted))"
      "\<forall>m<n. starts ! m = (if m = 0 then ?s2 else import_variables scope old (adapted ! (m - 1))) \<and>
           adaptation (starts ! m) (gens ! m) = Some (Inr (adapted ! m, gens ! Suc m))"
    by blast
  let ?starts = "s # starts" and ?adapted = "s1 # adapted" and ?gens = "g # gens"
  have 1: "length ?starts = Suc n" "length ?adapted = Suc n" "length ?gens = Suc (Suc n)"
    "?gens ! 0 = g" "?gens ! Suc n = g'"
    using h by simp_all
  have 2: "nv' = nv @ map (export_variables scope) ?adapted" using h by simp
  have 3: "s' = (if Suc n = 0 then s else import_variables scope old (last ?adapted))"
    using h(2,7) by (cases adapted) auto
  have 4: "?starts ! m = (if m = 0 then s else import_variables scope old (?adapted ! (m - 1))) \<and>
           adaptation (?starts ! m) (?gens ! m) = Some (Inr (?adapted ! m, ?gens ! Suc m))"
    if "m < Suc n" for m
  proof (cases m)
    case 0
    then show ?thesis using a h(4) by simp
  next
    case (Suc j)
    then have "j < n" using that by simp
    with h(8) have both:
      "starts ! j = (if j = 0 then ?s2 else import_variables scope old (adapted ! (j - 1))) \<and>
       adaptation (starts ! j) (gens ! j) = Some (Inr (adapted ! j, gens ! Suc j))"
      by blast
    from both have sj: "starts ! j = (if j = 0 then ?s2 else import_variables scope old (adapted ! (j - 1)))"
      by (rule conjunct1)
    from both have ad: "adaptation (starts ! j) (gens ! j) = Some (Inr (adapted ! j, gens ! Suc j))"
      by (rule conjunct2)
    have "(if j = 0 then ?s2 else import_variables scope old (adapted ! (j - 1))) =
        import_variables scope old (?adapted ! j)"
      by (cases j) simp_all
    with sj have "?starts ! Suc j = import_variables scope old (?adapted ! (Suc j - 1))" by simp
    moreover have "adaptation (?starts ! Suc j) (?gens ! Suc j) =
        Some (Inr (?adapted ! Suc j, ?gens ! Suc (Suc j)))"
      using ad by simp
    ultimately show ?thesis unfolding Suc by simp
  qed
  from 1 2 3 4 show ?case by blast
qed

lemma adapt_batches:
  assumes "adapt self dataset minimize_op num_classes num_shots inner_batch_size inner_iters
      replacement s g = Some (Inr (a, g'))"
  shows "\<exists>mini_dataset g1 batches.
      sample_mini_dataset_with_replacements dataset num_classes num_shots g = Inr (mini_dataset, g1) \<and>
      mini_batches mini_dataset inner_batch_size inner_iters replacement collect [] g1 =
        Some (Inr (batches, g')) \<and>
      length batches = nat inner_iters \<and>
      fold_steps (inner_step self minimize_op) batches s = Inr a"
proof -
  from assms obtain mini_dataset g1 where
    sm: "sample_mini_dataset_with_replacements dataset num_classes num_shots g = Inr (mini_dataset, g1)"
    by (auto simp: adapt_def split: sum.splits)
  with assms have "mini_batches mini_dataset inner_batch_size inner_iters replacement
      (inner_step self minimize_op) s g1 = Some (Inr (a, g'))"
    by (simp add: adapt_def)
  from mini_batches_body [OF this] sm show ?thesis by blast
qed

lemma add_vars_dom:
  assumes "add_vars a b = Inr c"
  shows "dom c = dom a \<and> dom b = dom a"
proof -
  from assms have d: "dom a = dom b" by (auto simp: add_vars_def split: if_splits)
  with assms have c: "c = (\<lambda>k. case a k of None \<Rightarrow> None | Some x \<Rightarrow> map_option (\<lambda>y. x + y) (b k))"
    by (simp add: add_vars_def)
  have "k \<in> dom c \<longleftrightarrow> k \<in> dom a" for k
  proof -
    have "k \<in> dom a \<longleftrightarrow> k \<in> dom b" using d by simp
    then show ?thesis unfolding c by (auto simp: domIff split: option.splits)
  qed
  then have "dom c = dom a" by blast
  with d show ?thesis by simp
qed

lemma interpolate_vars_dom:
  assumes "interpolate_vars a b t = Inr v"
  shows "dom v = dom a"
proof -
  from assms obtain d where "add_vars a (scale_vars d t) = Inr v"
    by (auto simp: interpolate_vars_def split: sum.splits)
  from add_vars_dom [OF this] show ?thesis by simp
qed

lemma average_vars_nonempty: "average_vars vs = Inr c \<Longrightarrow> vs \<noteq> []"
  by (auto simp: average_vars_def)

text \<open>
  Claim C1. Whenever \<^verbatim>\<open>Reptile.train_step\<close> returns, there are the sessions \<open>starts\<close> in
  which the \<open>meta_batch_size\<close> repetitions begin, the sessions \<open>adapted\<close> in which their
  inner loops end, and the states \<open>gens\<close> of the random generator between them, such that:
  the first repetition begins in the session of the call, every later one in the session
  that the previous inner loop left, with the trainable variables restored to the snapshot
  \<open>old\<close> exported at the beginning of the call, so that every repetition begins with the
  trainable snapshot \<open>old\<close>; in every repetition a task is sampled with class
  replacement, the generator of mini-batches yields \<open>inner_iters\<close> batches, and the
  inner loop takes one optimization step on each of them in turn; and the returned session
  is the one left by the last repetition with the trainable variables set to
  \<open>interpolate_vars old average meta_step_size\<close>, where \<open>average\<close> is the average of the
  trainable snapshots exported at the end of the inner loops.
\<close>

theorem train_step_reptile:
  assumes "train_step self dataset minimize_op num_classes num_shots inner_batch_size inner_iters
      replacement meta_step_size meta_batch_size s g = Some (Inr (s', g'))"
  shows "\<exists>starts adapted gens average.
      0 < meta_batch_size \<and> length starts = nat meta_batch_size \<and>
      length adapted = nat meta_batch_size \<and> length gens = Suc (nat meta_batch_size) \<and>
      gens ! 0 = g \<and> gens ! nat meta_batch_size = g' \<and>
      (\<forall>m<nat meta_batch_size.
         starts ! m =
           (if m = 0 then s
            else import_variables (model_state self) (export_variables (model_state self) s)
                   (adapted ! (m - 1))) \<and>
         export_variables (model_state self) (starts ! m) = export_variables (model_state self) s \<and>
         (\<exists>mini_dataset g1 batches.
            sample_mini_dataset_with_replacements dataset num_classes num_shots (gens ! m) =
              Inr (mini_dataset, g1) \<and>
            mini_batches mini_dataset inner_batch_size inner_iters replacement collect [] g1 =
              Some (Inr (batches, gens ! Suc m)) \<and>
            length batches = nat inner_iters \<and>
            fold_steps (inner_step self minimize_op) batches (starts ! m) = Inr (adapted ! m))) \<and>
      average_vars (map (export_variables (model_state self)) adapted) = Inr average \<and>
      interpolate_vars (export_variables (model_state self) s) average meta_step_size =
        Inr (export_variables (model_state self) s') \<and>
      s' = import_variables (model_state self) (export_variables (model_state self) s')
             (import_variables (model_state self) (export_variables (model_state self) s)
                (last adapted))"
proof -
  let ?scope = "model_state self"
  let ?old = "export_variables ?scope s"
  let ?adaptation = "adapt self dataset minimize_op num_classes num_shots inner_batch_size
      inner_iters replacement"
  from assms obtain s1 new_vars g1 where
    loop: "reptile_tasks (nat meta_batch_size) ?adaptation ?scope ?old (s, [], g) =
      Some (Inr (s1, new_vars, g1))"
    by (auto simp: train_step_def Let_def split: option.splits sum.splits)
  with assms obtain average where avg: "average_vars new_vars = Inr average"
    by (auto simp: train_step_def Let_def split: sum.splits)
  with assms loop obtain v where
    v: "interpolate_vars ?old average meta_step_size = Inr v"
    and s': "s' = import_variables ?scope v s1" and g': "g' = g1"
    by (auto simp: train_step_def Let_def split: sum.splits)
  from reptile_tasks_trace [OF loop] obtain starts adapted gens where
    t: "length starts = nat meta_batch_size" "length adapted = nat meta_batch_size"
      "new_vars = [] @ map (export_variables ?scope) adapted"
      "s1 = (if nat meta_batch_size = 0 then s else import_variables ?scope ?old (last adapted))"
    and gens: "length gens = Suc (nat meta_batch_size)" "gens ! 0 = g" "gens ! nat meta_batch_size = g1"
    and each: "\<forall>m<nat meta_batch_size.
        starts ! m = (if m = 0 then s else import_variables ?scope ?old (adapted ! (m - 1))) \<and>
        ?adaptation (starts ! m) (gens ! m) = Some (Inr (adapted ! m, gens ! Suc m))"
    by blast
  from average_vars_nonempty [OF avg] t(3) have "adapted \<noteq> []" by auto
  then have "length adapted \<noteq> 0" by simp
  with t(2) have pos: "0 < meta_batch_size" by (cases "0 < meta_batch_size") simp_all
  have dv: "dom v = ?scope" using interpolate_vars_dom [OF v] by simp
  have ev: "export_variables ?scope s' = v" unfolding s' by (rule export_import [OF dv])
  have s1: "s1 = import_variables ?scope ?old (last adapted)" using t(4) pos by simp
  have rep: "starts ! m = (if m = 0 then s else import_variables ?scope ?old (adapted ! (m - 1))) \<and>
         export_variables ?scope (starts ! m) = ?old \<and>
         (\<exists>mini_dataset g1 batches.
            sample_mini_dataset_with_replacements dataset num_classes num_shots (gens ! m) =
              Inr (mini_dataset, g1) \<and>
            mini_batches mini_dataset inner_batch_size inner_iters replacement collect [] g1 =
              Some (Inr (batches, gens ! Suc m)) \<and>
            length batches = nat inner_iters \<and>
            fold_steps (inner_step self minimize_op) batches (starts ! m) = Inr (adapted ! m))"
    if m: "m < nat meta_batch_size" for m
  proof -
    from each m have both: "starts ! m =
        (if m = 0 then s else import_variables ?scope ?old (adapted ! (m - 1))) \<and>
        ?adaptation (starts ! m) (gens ! m) = Some (Inr (adapted ! m, gens ! Suc m))"
      by blast
    from both have st: "starts ! m =
        (if m = 0 then s else import_variables ?scope ?old (adapted ! (m - 1)))"
      by (rule conjunct1)
    from both have "?adaptation (starts ! m) (gens ! m) = Some (Inr (adapted ! m, gens ! Suc m))"
      by (rule conjunct2)
    from adapt_batches [OF this] have b: "\<exists>mini_dataset g1 batches.
            sample_mini_dataset_with_replacements dataset num_classes num_shots (gens ! m) =
              Inr (mini_dataset, g1) \<and>
            mini_batches mini_dataset inner_batch_size inner_iters replacement collect [] g1 =
              Some (Inr (batches, gens ! Suc m)) \<and>
            length batches = nat inner_iters \<and>
            fold_steps (inner_step self minimize_op) batches (starts ! m) = Inr (adapted ! m)" .
    have "export_variables ?scope (starts ! m) = ?old" unfolding st by simp
    with st b show ?thesis by blast
  qed
  have "average_vars (map (export_variables ?scope) adapted) = Inr average" using avg t(3) by simp
  moreover have "interpolate_vars ?old average meta_step_size = Inr (export_variables ?scope s')"
    using v ev by simp
  moreover have "s' = import_variables ?scope (export_variables ?scope s')
      (import_variables ?scope ?old (last adapted))"
    using s' s1 ev by simp
  moreover have "gens ! nat meta_batch_size = g'" using gens g' by simp
  ultimately show ?thesis using pos t(1,2) gens(1,2) rep by blast
qed

theorem train_step_reptile_witness:
  "\<exists>s' g' (adapted :: (bool, real, string) session list) average.
     train_step (toy_reptile False) toy_dataset toy_minimize 2 2 3 2 True (1 / 2) 2 toy_session
       (rng_of_list []) = Some (Inr (s', g')) \<and>
     average_vars (map (export_variables {True}) adapted) = Inr average \<and>
     length adapted = 2 \<and>
     interpolate_vars (export_variables {True} toy_session) average (1 / 2) =
       Inr (export_variables {True} s') \<and>
     variables s' True = 9 / 2"
proof -
  let ?run = "train_step (toy_reptile False) toy_dataset toy_minimize 2 2 3 2 True (1 / 2) 2
      toy_session (rng_of_list [])"
  have "case ?run of Some (Inr (s', g')) \<Rightarrow> variables s' True = 9 / 2 | _ \<Rightarrow> False"
    by code_simp
  then obtain s' g' where r: "?run = Some (Inr (s', g'))" and v: "variables s' True = 9 / 2"
    by (auto split: option.splits sum.splits)
  have m: "model_state (toy_reptile False) = {True}" by (simp add: toy_reptile_def)
  from train_step_reptile [OF r] obtain adapted :: "(bool, real, string) session list"
    and average where
    "average_vars (map (export_variables {True}) adapted) = Inr average"
    "length adapted = nat 2"
    "interpolate_vars (export_variables {True} toy_session) average (1 / 2) =
       Inr (export_variables {True} s')"
    unfolding m by (elim exE conjE) blast
  then show ?thesis using r v by auto
qed


section \<open>The first-order MAML training step\<close>

lemma foml_inner_step_eq:
  "foml_inner_step self minimize_op batch (s, lb) =
     (case inner_step self minimize_op batch s of
        Inl e \<Rightarrow> Inl e
      | Inr s1 \<Rightarrow> Inr (s1, Some (export_variables (model_state self) s)))"
  by (simp add: foml_inner_step_def inner_step_def Let_def split: sum.splits prod.splits)

lemma foml_fold_last:
  "fold_steps (foml_inner_step self minimize_op) batches (s, lb) = Inr (s2, lb2) \<Longrightarrow>
     (batches = [] \<longrightarrow> s2 = s \<and> lb2 = lb) \<and>
     (batches \<noteq> [] \<longrightarrow>
        (\<exists>pre. fold_steps (inner_step self minimize_op) (butlast batches) s = Inr pre \<and>
           inner_step self minimize_op (last batches) pre = Inr s2 \<and>
           lb2 = Some (export_variables (model_state self) pre)))"
proof (induction batches arbitrary: s lb)
  case Nil
  then show ?case by simp
next
  case (Cons b rest)
  from Cons.prems obtain s1 where b: "inner_step self minimize_op b s = Inr s1"
    by (cases "inner_step self minimize_op b s") (auto simp: foml_inner_step_eq)
  let ?lb1 = "Some (export_variables (model_state self) s)"
  from Cons.prems b have r: "fold_steps (foml_inner_step self minimize_op) rest (s1, ?lb1) = Inr (s2, lb2)"
    by (simp add: foml_inner_step_eq)
  show ?case
  proof (cases "rest = []")
    case True
    with r have "s2 = s1" "lb2 = ?lb1" by simp_all
    with True b show ?thesis by simp
  next
    case False
    with Cons.IH [OF r] obtain pre where
      "fold_steps (inner_step self minimize_op) (butlast rest) s1 = Inr pre"
      "inner_step self minimize_op (last rest) pre = Inr s2"
      "lb2 = Some (export_variables (model_state self) pre)"
      by blast
    with False b show ?thesis by simp
  qed
qed

lemma foml_mini_batches_body:
  assumes "foml_mini_batches ord self md bs iters repl body acc g = Some (Inr (a, g'))"
  shows "\<exists>batches. foml_mini_batches ord self md bs iters repl collect [] g = Some (Inr (batches, g')) \<and>
           fold_steps body batches acc = Inr a"
proof (cases "tail_shots self")
  case None
  with assms have "mini_batches md bs iters repl body acc g = Some (Inr (a, g'))"
    by (simp add: foml_mini_batches_def)
  from mini_batches_body [OF this] None show ?thesis
    by (auto simp: foml_mini_batches_def)
next
  case (Some shots)
  with assms obtain train tail where sp: "split_train_test ord md shots = Inr (train, tail)"
    by (cases "split_train_test ord md shots") (auto simp: foml_mini_batches_def)
  with assms Some obtain acc1 g1 where
    mb: "mini_batches train bs (iters - 1) repl body acc g = Some (Inr (acc1, g1))"
    by (auto simp: foml_mini_batches_def split: option.splits sum.splits)
  with assms Some sp have t: "body tail acc1 = Inr a" "g1 = g'"
    by (auto simp: foml_mini_batches_def split: sum.splits)
  from mini_batches_body [OF mb] obtain batches where
    b: "mini_batches train bs (iters - 1) repl collect [] g = Some (Inr (batches, g1))"
      "fold_steps body batches acc = Inr acc1"
    by blast
  have cc: "collect tail batches = Inr (batches @ [tail])" by (simp add: collect_def)
  have "foml_mini_batches ord self md bs iters repl collect [] g = Some (Inr (batches @ [tail], g'))"
    using Some sp b(1) t(2) by (simp add: foml_mini_batches_def cc)
  moreover have "fold_steps body (batches @ [tail]) acc = Inr a"
    using b(2) t(1) by (simp add: fold_steps_append)
  ultimately show ?thesis by blast
qed

lemma foml_batches_empty_iff:
  assumes "foml_mini_batches ord self md bs iters repl collect [] g = Some (Inr (batches, g'))"
  shows "batches = [] \<longleftrightarrow> tail_shots self = None \<and> repl \<and> iters \<le> 0"
proof (cases "tail_shots self")
  case None
  with assms have "mini_batches md bs iters repl collect [] g = Some (Inr (batches, g'))"
    by (simp add: foml_mini_batches_def)
  from mini_batches_collect_body [OF this] have "length batches = nat iters" "repl \<or> batches \<noteq> []"
    by blast+
  with None show ?thesis by auto
next
  case (Some shots)
  with assms obtain train tail where sp: "split_train_test ord md shots = Inr (train, tail)"
    by (cases "split_train_test ord md shots") (auto simp: foml_mini_batches_def)
  with assms Some obtain acc1 g1 where
    mb: "mini_batches train bs (iters - 1) repl collect [] g = Some (Inr (acc1, g1))"
    by (auto simp: foml_mini_batches_def split: option.splits sum.splits)
  have cc: "collect tail acc1 = Inr (acc1 @ [tail])" by (simp add: collect_def)
  from assms Some sp mb have "batches = acc1 @ [tail]" by (simp add: foml_mini_batches_def cc)
  with Some show ?thesis by simp
qed


lemma foml_tasks_trace:
  "foml_tasks n adaptation scope old (s, lb, ups, g) = Some (Inr (s', lb', ups', g')) \<Longrightarrow>
     \<exists>starts adapted lbs gens new.
        length starts = n \<and> length adapted = n \<and> length new = n \<and>
        length lbs = Suc n \<and> length gens = Suc n \<and>
        gens ! 0 = g \<and> gens ! n = g' \<and> lbs ! 0 = lb \<and> lbs ! n = lb' \<and>
        ups' = ups @ new \<and>
        s' = (if n = 0 then s else import_variables scope old (last adapted)) \<and>
        (\<forall>m<n. starts ! m = (if m = 0 then s else import_variables scope old (adapted ! (m - 1))) \<and>
           adaptation (starts ! m, lbs ! m) (gens ! m) =
             Some (Inr ((adapted ! m, lbs ! Suc m), gens ! Suc m)) \<and>
           (\<exists>backup. lbs ! Suc m = Some backup \<and>
              subtract_vars (export_variables scope (adapted ! m)) backup = Inr (new ! m)))"
proof (induction n arbitrary: s lb ups g)
  case 0
  then show ?case
    by (intro exI [of _ "[]"] exI [of _ "[lb]"] exI [of _ "[g]"]) simp
next
  case (Suc n)
  from Suc.prems obtain s1 lb1 g1 where a: "adaptation (s, lb) g = Some (Inr ((s1, lb1), g1))"
    by (auto split: option.splits sum.splits)
  with Suc.prems obtain backup where lb1: "lb1 = Some backup"
    by (cases lb1) auto
  with Suc.prems a obtain update where
    u: "subtract_vars (export_variables scope s1) backup = Inr update"
    by (auto split: sum.splits)
  let ?s2 = "import_variables scope old s1"
  from Suc.prems a lb1 u have "foml_tasks n adaptation scope old
      (?s2, lb1, ups @ [update], g1) = Some (Inr (s', lb', ups', g'))"
    by simp
  from Suc.IH [OF this] obtain starts adapted lbs gens new where
    h: "length starts = n" "length adapted = n" "length new = n" "length lbs = Suc n"
      "length gens = Suc n" "gens ! 0 = g1" "gens ! n = g'" "lbs ! 0 = lb1" "lbs ! n = lb'"
      "ups' = (ups @ [update]) @ new"
      "s' = (if n = 0 then ?s2 else import_variables scope old (last adapted))"
    and each: "\<forall>m<n. starts ! m = (if m = 0 then ?s2 else import_variables scope old (adapted ! (m - 1))) \<and>
           adaptation (starts ! m, lbs ! m) (gens ! m) =
             Some (Inr ((adapted ! m, lbs ! Suc m), gens ! Suc m)) \<and>
           (\<exists>backup. lbs ! Suc m = Some backup \<and>
              subtract_vars (export_variables scope (adapted ! m)) backup = Inr (new ! m))"
    by blast
  let ?starts = "s # starts" and ?adapted = "s1 # adapted" and ?gens = "g # gens"
    and ?lbs = "lb # lbs" and ?new = "update # new"
  have 1: "length ?starts = Suc n" "length ?adapted = Suc n" "length ?new = Suc n"
    "length ?lbs = Suc (Suc n)" "length ?gens = Suc (Suc n)"
    "?gens ! 0 = g" "?gens ! Suc n = g'" "?lbs ! 0 = lb" "?lbs ! Suc n = lb'"
    using h by simp_all
  have 2: "ups' = ups @ ?new" using h by simp
  have 3: "s' = (if Suc n = 0 then s else import_variables scope old (last ?adapted))"
    using h(2,11) by (cases adapted) auto
  have 4: "?starts ! m = (if m = 0 then s else import_variables scope old (?adapted ! (m - 1))) \<and>
           adaptation (?starts ! m, ?lbs ! m) (?gens ! m) =
             Some (Inr ((?adapted ! m, ?lbs ! Suc m), ?gens ! Suc m)) \<and>
           (\<exists>backup. ?lbs ! Suc m = Some backup \<and>
              subtract_vars (export_variables scope (?adapted ! m)) backup = Inr (?new ! m))"
    if "m < Suc n" for m
  proof (cases m)
    case 0
    then show ?thesis using a h(6,8) lb1 u by simp
  next
    case (Suc j)
    then have "j < n" using that by simp
    with each have both:
      "starts ! j = (if j = 0 then ?s2 else import_variables scope old (adapted ! (j - 1))) \<and>
       adaptation (starts ! j, lbs ! j) (gens ! j) =
             Some (Inr ((adapted ! j, lbs ! Suc j), gens ! Suc j)) \<and>
           (\<exists>backup. lbs ! Suc j = Some backup \<and>
              subtract_vars (export_variables scope (adapted ! j)) backup = Inr (new ! j))"
      by blast
    from both have sj: "starts ! j = (if j = 0 then ?s2 else import_variables scope old (adapted ! (j - 1)))"
      by (rule conjunct1)
    from both have rest: "adaptation (starts ! j, lbs ! j) (gens ! j) =
             Some (Inr ((adapted ! j, lbs ! Suc j), gens ! Suc j)) \<and>
           (\<exists>backup. lbs ! Suc j = Some backup \<and>
              subtract_vars (export_variables scope (adapted ! j)) backup = Inr (new ! j))"
      by (rule conjunct2)
    have "(if j = 0 then ?s2 else import_variables scope old (adapted ! (j - 1))) =
        import_variables scope old (?adapted ! j)"
      by (cases j) simp_all
    with sj have "?starts ! Suc j = import_variables scope old (?adapted ! (Suc j - 1))" by simp
    then show ?thesis unfolding Suc using rest by simp
  qed
  from 1 2 3 4 show ?case by blast
qed

lemma foml_adapt_batches:
  assumes "foml_adapt ord self dataset minimize_op num_classes num_shots inner_batch_size inner_iters
      replacement st g = Some (Inr (st', g'))"
  shows "\<exists>mini_dataset g1 batches.
      sample_mini_dataset_with_replacements dataset num_classes num_shots g = Inr (mini_dataset, g1) \<and>
      foml_mini_batches ord self mini_dataset inner_batch_size inner_iters replacement collect [] g1 =
        Some (Inr (batches, g')) \<and>
      fold_steps (foml_inner_step self minimize_op) batches st = Inr st'"
proof -
  from assms obtain mini_dataset g1 where
    sm: "sample_mini_dataset_with_replacements dataset num_classes num_shots g = Inr (mini_dataset, g1)"
    by (auto simp: foml_adapt_def split: sum.splits)
  with assms have "foml_mini_batches ord self mini_dataset inner_batch_size inner_iters replacement
      (foml_inner_step self minimize_op) st g1 = Some (Inr (st', g'))"
    by (simp add: foml_adapt_def)
  from foml_mini_batches_body [OF this] sm show ?thesis by blast
qed


text \<open>
  Claim C2. Whenever \<^verbatim>\<open>FOML.train_step\<close> returns, there are the sessions \<open>starts\<close> in
  which the \<open>meta_batch_size\<close> tasks begin (each with the trainable snapshot \<open>old\<close>
  exported at the beginning of the call), the sessions \<open>before_last\<close> in which the last
  step of each inner loop begins, and the sessions \<open>adapted\<close> in which the inner loops end,
  such that: for every task the generator yields a sequence of mini-batches that is not
  empty, the inner loop takes one optimization step on each batch in turn, and the update
  recorded for the task is the trainable snapshot after all the steps minus the trainable
  snapshot exported immediately before the last step; and the returned session has the
  trainable variables set to \<open>old + meta_step_size * average\<close>, where \<open>average\<close> is the
  average of the recorded updates: \<open>add_vars\<close> of \<open>old\<close> and the scaled average, with no
  subtraction of \<open>old\<close> from the average as \<open>interpolate_vars\<close> has.
\<close>

theorem train_step_foml:
  assumes "foml_train_step ord self dataset minimize_op num_classes num_shots inner_batch_size
      inner_iters replacement meta_step_size meta_batch_size s g = Some (Inr (s', g'))"
  shows "\<exists>starts before_last adapted gens updates average.
      0 < meta_batch_size \<and> length starts = nat meta_batch_size \<and>
      length before_last = nat meta_batch_size \<and> length adapted = nat meta_batch_size \<and>
      length updates = nat meta_batch_size \<and> length gens = Suc (nat meta_batch_size) \<and>
      gens ! 0 = g \<and> gens ! nat meta_batch_size = g' \<and>
      (\<forall>m<nat meta_batch_size.
         starts ! m =
           (if m = 0 then s
            else import_variables (model_state self) (export_variables (model_state self) s)
                   (adapted ! (m - 1))) \<and>
         export_variables (model_state self) (starts ! m) = export_variables (model_state self) s \<and>
         (\<exists>mini_dataset g1 batches.
            sample_mini_dataset_with_replacements dataset num_classes num_shots (gens ! m) =
              Inr (mini_dataset, g1) \<and>
            foml_mini_batches ord self mini_dataset inner_batch_size inner_iters replacement
              collect [] g1 = Some (Inr (batches, gens ! Suc m)) \<and>
            batches \<noteq> [] \<and>
            fold_steps (inner_step self minimize_op) (butlast batches) (starts ! m) =
              Inr (before_last ! m) \<and>
            inner_step self minimize_op (last batches) (before_last ! m) = Inr (adapted ! m)) \<and>
         subtract_vars (export_variables (model_state self) (adapted ! m))
           (export_variables (model_state self) (before_last ! m)) = Inr (updates ! m)) \<and>
      average_vars updates = Inr average \<and>
      add_vars (export_variables (model_state self) s) (scale_vars average meta_step_size) =
        Inr (export_variables (model_state self) s') \<and>
      s' = import_variables (model_state self) (export_variables (model_state self) s')
             (import_variables (model_state self) (export_variables (model_state self) s)
                (last adapted))"
proof -
  let ?scope = "model_state self"
  let ?old = "export_variables ?scope s"
  let ?n = "nat meta_batch_size"
  let ?adaptation = "foml_adapt ord self dataset minimize_op num_classes num_shots inner_batch_size
      inner_iters replacement"
  from assms obtain s1 lb1 updates g1 where
    loop: "foml_tasks ?n ?adaptation ?scope ?old (s, None, [], g) = Some (Inr (s1, lb1, updates, g1))"
    by (auto simp: foml_train_step_def Let_def split: option.splits sum.splits)
  with assms obtain average where avg: "average_vars updates = Inr average"
    by (auto simp: foml_train_step_def Let_def split: sum.splits)
  with assms loop obtain v where
    v: "add_vars ?old (scale_vars average meta_step_size) = Inr v"
    and s': "s' = import_variables ?scope v s1" and g': "g' = g1"
    by (auto simp: foml_train_step_def Let_def split: sum.splits)
  from foml_tasks_trace [OF loop] obtain starts adapted lbs gens new where
    t: "length starts = ?n" "length adapted = ?n" "length new = ?n" "length lbs = Suc ?n"
      "length gens = Suc ?n" "gens ! 0 = g" "gens ! ?n = g1" "lbs ! 0 = None"
      "updates = [] @ new"
      "s1 = (if ?n = 0 then s else import_variables ?scope ?old (last adapted))"
    and each: "\<forall>m<?n. starts ! m = (if m = 0 then s else import_variables ?scope ?old (adapted ! (m - 1))) \<and>
           ?adaptation (starts ! m, lbs ! m) (gens ! m) =
             Some (Inr ((adapted ! m, lbs ! Suc m), gens ! Suc m)) \<and>
           (\<exists>backup. lbs ! Suc m = Some backup \<and>
              subtract_vars (export_variables ?scope (adapted ! m)) backup = Inr (new ! m))"
    by blast
  have upd: "updates = new" using t(9) by simp
  from average_vars_nonempty [OF avg] upd have "new \<noteq> []" by simp
  then have "length new \<noteq> 0" by simp
  with t(3) have pos: "0 < meta_batch_size" by (cases "0 < meta_batch_size") simp_all
  then have n0: "0 < ?n" by simp
  have dv: "dom v = ?scope" using add_vars_dom [OF v] by simp
  have ev: "export_variables ?scope s' = v" unfolding s' by (rule export_import [OF dv])
  have s1: "s1 = import_variables ?scope ?old (last adapted)" using t(10) n0 by simp
  have run: "\<exists>mini_dataset g1 batches.
      sample_mini_dataset_with_replacements dataset num_classes num_shots (gens ! m) =
        Inr (mini_dataset, g1) \<and>
      foml_mini_batches ord self mini_dataset inner_batch_size inner_iters replacement
        collect [] g1 = Some (Inr (batches, gens ! Suc m)) \<and>
      fold_steps (foml_inner_step self minimize_op) batches (starts ! m, lbs ! m) =
        Inr (adapted ! m, lbs ! Suc m)"
    if "m < ?n" for m
  proof -
    from each that have "?adaptation (starts ! m, lbs ! m) (gens ! m) =
             Some (Inr ((adapted ! m, lbs ! Suc m), gens ! Suc m))"
      by blast
    from foml_adapt_batches [OF this] show ?thesis .
  qed
  have never_empty: "\<not> (tail_shots self = None \<and> replacement \<and> inner_iters \<le> 0)"
  proof
    assume e: "tail_shots self = None \<and> replacement \<and> inner_iters \<le> 0"
    from run [OF n0] obtain mini_dataset g1 batches where
      b: "foml_mini_batches ord self mini_dataset inner_batch_size inner_iters replacement
        collect [] g1 = Some (Inr (batches, gens ! Suc 0))"
      "fold_steps (foml_inner_step self minimize_op) batches (starts ! 0, lbs ! 0) =
        Inr (adapted ! 0, lbs ! Suc 0)"
      by blast
    from foml_batches_empty_iff [OF b(1)] e have "batches = []" by simp
    with foml_fold_last [OF b(2)] have "lbs ! Suc 0 = lbs ! 0" by simp
    moreover from each n0 obtain backup where "lbs ! Suc 0 = Some backup" by blast
    ultimately show False using t(8) by simp
  qed
  have "\<exists>pre. \<forall>m<?n. (\<exists>mini_dataset g1 batches.
            sample_mini_dataset_with_replacements dataset num_classes num_shots (gens ! m) =
              Inr (mini_dataset, g1) \<and>
            foml_mini_batches ord self mini_dataset inner_batch_size inner_iters replacement
              collect [] g1 = Some (Inr (batches, gens ! Suc m)) \<and>
            batches \<noteq> [] \<and>
            fold_steps (inner_step self minimize_op) (butlast batches) (starts ! m) = Inr (pre m) \<and>
            inner_step self minimize_op (last batches) (pre m) = Inr (adapted ! m)) \<and>
         subtract_vars (export_variables ?scope (adapted ! m))
           (export_variables ?scope (pre m)) = Inr (new ! m)"
  proof (intro choice allI)
    fix m
    show "\<exists>p. m < ?n \<longrightarrow> (\<exists>mini_dataset g1 batches.
            sample_mini_dataset_with_replacements dataset num_classes num_shots (gens ! m) =
              Inr (mini_dataset, g1) \<and>
            foml_mini_batches ord self mini_dataset inner_batch_size inner_iters replacement
              collect [] g1 = Some (Inr (batches, gens ! Suc m)) \<and>
            batches \<noteq> [] \<and>
            fold_steps (inner_step self minimize_op) (butlast batches) (starts ! m) = Inr p \<and>
            inner_step self minimize_op (last batches) p = Inr (adapted ! m)) \<and>
         subtract_vars (export_variables ?scope (adapted ! m))
           (export_variables ?scope p) = Inr (new ! m)"
    proof (cases "m < ?n")
      case False
      then show ?thesis by simp
    next
      case True
      from run [OF True] obtain mini_dataset g1 batches where
        b: "sample_mini_dataset_with_replacements dataset num_classes num_shots (gens ! m) =
              Inr (mini_dataset, g1)"
          "foml_mini_batches ord self mini_dataset inner_batch_size inner_iters replacement
              collect [] g1 = Some (Inr (batches, gens ! Suc m))"
          "fold_steps (foml_inner_step self minimize_op) batches (starts ! m, lbs ! m) =
              Inr (adapted ! m, lbs ! Suc m)"
        by blast
      from foml_batches_empty_iff [OF b(2)] never_empty have ne: "batches \<noteq> []" by simp
      with foml_fold_last [OF b(3)] obtain p where
        p: "fold_steps (inner_step self minimize_op) (butlast batches) (starts ! m) = Inr p"
          "inner_step self minimize_op (last batches) p = Inr (adapted ! m)"
          "lbs ! Suc m = Some (export_variables ?scope p)"
        by blast
      from each True obtain backup where
        "lbs ! Suc m = Some backup"
        "subtract_vars (export_variables ?scope (adapted ! m)) backup = Inr (new ! m)"
        by blast
      with p(3) have "subtract_vars (export_variables ?scope (adapted ! m))
          (export_variables ?scope p) = Inr (new ! m)"
        by simp
      with b(1,2) ne p(1,2) show ?thesis by blast
    qed
  qed
  then obtain pre where pre: "\<forall>m<?n. (\<exists>mini_dataset g1 batches.
            sample_mini_dataset_with_replacements dataset num_classes num_shots (gens ! m) =
              Inr (mini_dataset, g1) \<and>
            foml_mini_batches ord self mini_dataset inner_batch_size inner_iters replacement
              collect [] g1 = Some (Inr (batches, gens ! Suc m)) \<and>
            batches \<noteq> [] \<and>
            fold_steps (inner_step self minimize_op) (butlast batches) (starts ! m) = Inr (pre m) \<and>
            inner_step self minimize_op (last batches) (pre m) = Inr (adapted ! m)) \<and>
         subtract_vars (export_variables ?scope (adapted ! m))
           (export_variables ?scope (pre m)) = Inr (new ! m)"
    by blast
  let ?before = "map pre [0..<?n]"
  have bl: "length ?before = ?n" by simp
  have rep: "starts ! m = (if m = 0 then s else import_variables ?scope ?old (adapted ! (m - 1))) \<and>
         export_variables ?scope (starts ! m) = ?old \<and>
         (\<exists>mini_dataset g1 batches.
            sample_mini_dataset_with_replacements dataset num_classes num_shots (gens ! m) =
              Inr (mini_dataset, g1) \<and>
            foml_mini_batches ord self mini_dataset inner_batch_size inner_iters replacement
              collect [] g1 = Some (Inr (batches, gens ! Suc m)) \<and>
            batches \<noteq> [] \<and>
            fold_steps (inner_step self minimize_op) (butlast batches) (starts ! m) =
              Inr (?before ! m) \<and>
            inner_step self minimize_op (last batches) (?before ! m) = Inr (adapted ! m)) \<and>
         subtract_vars (export_variables ?scope (adapted ! m))
           (export_variables ?scope (?before ! m)) = Inr (new ! m)"
    if m: "m < ?n" for m
  proof -
    from each m have st: "starts ! m =
        (if m = 0 then s else import_variables ?scope ?old (adapted ! (m - 1)))"
      by blast
    have ex: "export_variables ?scope (starts ! m) = ?old" unfolding st by simp
    have bm: "?before ! m = pre m" using m by simp
    from pre m have pm: "(\<exists>mini_dataset g1 batches.
            sample_mini_dataset_with_replacements dataset num_classes num_shots (gens ! m) =
              Inr (mini_dataset, g1) \<and>
            foml_mini_batches ord self mini_dataset inner_batch_size inner_iters replacement
              collect [] g1 = Some (Inr (batches, gens ! Suc m)) \<and>
            batches \<noteq> [] \<and>
            fold_steps (inner_step self minimize_op) (butlast batches) (starts ! m) = Inr (pre m) \<and>
            inner_step self minimize_op (last batches) (pre m) = Inr (adapted ! m)) \<and>
         subtract_vars (export_variables ?scope (adapted ! m))
           (export_variables ?scope (pre m)) = Inr (new ! m)"
      by blast
    show ?thesis unfolding bm using st ex pm by blast
  qed
  have "average_vars new = Inr average" using avg upd by simp
  moreover have "add_vars ?old (scale_vars average meta_step_size) = Inr (export_variables ?scope s')"
    using v ev by simp
  moreover have "s' = import_variables ?scope (export_variables ?scope s')
      (import_variables ?scope ?old (last adapted))"
    using s' s1 ev by simp
  moreover have "gens ! ?n = g'" using t(7) g' by simp
  ultimately show ?thesis using pos t(1,2,3,5,6) bl rep by blast
qed


text \<open>
  Two tasks of two inner steps each, from the variables at 1: the steps double the trainable
  variable and add the size of the batch, the last step of each task adds 8, and the call
  leaves \<open>1 + 8 / 2 = 5\<close>, where an interpolation would leave \<open>1 + (8 - 1) / 2\<close>.
\<close>

lemma add_vars_at:
  "add_vars a b = Inr c \<Longrightarrow>
     c k = (case a k of None \<Rightarrow> None | Some x \<Rightarrow> map_option (\<lambda>y. x + y) (b k))"
  by (auto simp: add_vars_def split: if_splits)

lemma subtract_vars_at:
  "subtract_vars a b = Inr c \<Longrightarrow>
     c k = (case a k of None \<Rightarrow> None | Some x \<Rightarrow> map_option (\<lambda>y. x - y) (b k))"
  by (auto simp: subtract_vars_def split: if_splits)

theorem train_step_foml_witness:
  "\<exists>s' g' (updates :: (bool, real) snapshot list) average.
     foml_train_step 0 (toy_foml None) toy_dataset toy_minimize 2 2 3 2 True (1 / 2) 2
       (toy_session\<lparr>variables := (\<lambda>k. 1)\<rparr>) (rng_of_list []) = Some (Inr (s', g')) \<and>
     average_vars updates = Inr average \<and> length updates = 2 \<and>
     add_vars (export_variables {True} (toy_session\<lparr>variables := (\<lambda>k. 1)\<rparr>))
        (scale_vars average (1 / 2)) = Inr (export_variables {True} s') \<and>
     interpolate_vars (export_variables {True} (toy_session\<lparr>variables := (\<lambda>k. 1)\<rparr>))
        average (1 / 2) \<noteq> Inr (export_variables {True} s') \<and>
     variables s' True = 5"
proof -
  let ?s0 = "toy_session\<lparr>variables := (\<lambda>k. 1)\<rparr>"
  let ?run = "foml_train_step 0 (toy_foml None) toy_dataset toy_minimize 2 2 3 2 True (1 / 2) 2
      ?s0 (rng_of_list [])"
  let ?old = "export_variables {True} ?s0"
  have "case ?run of Some (Inr (s', g')) \<Rightarrow> variables s' True = 5 | _ \<Rightarrow> False"
    by code_simp
  then obtain s' g' where r: "?run = Some (Inr (s', g'))" and v: "variables s' True = 5"
    by (auto split: option.splits sum.splits)
  let ?new = "export_variables {True} s'"
  have m: "model_state (toy_foml None) = {True}" by (simp add: toy_foml_def)
  from train_step_foml [OF r] obtain updates :: "(bool, real) snapshot list" and average where
    h: "average_vars updates = Inr average" "length updates = nat 2"
    "add_vars ?old (scale_vars average (1 / 2)) = Inr ?new"
    unfolding m by (elim exE conjE) blast
  have o1: "?old True = Some 1" by (simp add: export_variables_def)
  have n5: "?new True = Some 5" using v by (simp add: export_variables_def)
  from add_vars_at [OF h(3), of True] o1 n5
  have "map_option (\<lambda>y. 1 + y) (scale_vars average (1 / 2) True) = Some 5" by simp
  then have a8: "average True = Some 8" by (auto simp: scale_vars_def)
  have ni: "interpolate_vars ?old average (1 / 2) \<noteq> Inr ?new"
  proof
    assume i: "interpolate_vars ?old average (1 / 2) = Inr ?new"
    then obtain d where d: "subtract_vars average ?old = Inr d"
      and a: "add_vars ?old (scale_vars d (1 / 2)) = Inr ?new"
      by (cases "subtract_vars average ?old") (simp_all add: interpolate_vars_def)
    from subtract_vars_at [OF d, of True] a8 o1 have "d True = Some 7" by simp
    with add_vars_at [OF a, of True] o1 n5 show False by (simp add: scale_vars_def)
  qed
  from r v h ni show ?thesis by auto
qed


section \<open>The first-order MAML step and the number of mini-batches\<close>

lemma foml_batches_tail:
  assumes "foml_mini_batches ord self md bs iters repl collect [] g = Some (Inr (batches, g'))"
    and "tail_shots self = Some shots"
  shows "\<exists>train tail. split_train_test ord md shots = Inr (train, tail) \<and>
           length batches = Suc (nat (iters - 1)) \<and> last batches = tail"
proof -
  from assms obtain train tail where sp: "split_train_test ord md shots = Inr (train, tail)"
    by (cases "split_train_test ord md shots") (auto simp: foml_mini_batches_def)
  with assms obtain acc1 g1 where
    mb: "mini_batches train bs (iters - 1) repl collect [] g = Some (Inr (acc1, g1))"
    by (auto simp: foml_mini_batches_def split: option.splits sum.splits)
  have cc: "collect tail acc1 = Inr (acc1 @ [tail])" by (simp add: collect_def)
  from assms sp mb have b: "batches = acc1 @ [tail]" by (simp add: foml_mini_batches_def cc)
  from mini_batches_collect_body [OF mb] have "length acc1 = nat (iters - 1)" by blast
  with sp b show ?thesis by simp
qed

text \<open>
  Claim C10. Let the first task of \<^verbatim>\<open>FOML.train_step\<close> be sampled and let the generator
  \<^verbatim>\<open>FOML._mini_batches\<close> return for it, having yielded \<open>batches\<close>. The sequence is empty
  exactly when \<open>tail_shots\<close> is \<^verbatim>\<open>None\<close>, the batches are drawn with replacement and
  \<open>inner_iters\<close> is at most 0; in that case the call, for at least one task, raises
  \<^verbatim>\<open>UnboundLocalError\<close>, whatever the session and the operations are. When \<open>tail_shots\<close>
  is set the sequence is never empty: it consists of the \<open>inner_iters - 1\<close> batches of the
  train part (none when \<open>inner_iters\<close> is at most 1) and ends with the tail batch.
\<close>

theorem foml_train_step_no_batches:
  assumes "0 < meta_batch_size"
    and "sample_mini_dataset_with_replacements dataset num_classes num_shots g = Inr (mini_dataset, g1)"
    and "foml_yielded ord self mini_dataset inner_batch_size inner_iters replacement g1 =
           Some (Inr batches)"
  shows "(batches = [] \<longleftrightarrow> tail_shots self = None \<and> replacement \<and> inner_iters \<le> 0) \<and>
         (batches = [] \<longrightarrow>
            foml_train_step ord self dataset minimize_op num_classes num_shots inner_batch_size
              inner_iters replacement meta_step_size meta_batch_size s g =
            Some (Inl UnboundLocalError)) \<and>
         (\<forall>shots. tail_shots self = Some shots \<longrightarrow>
            (\<exists>train tail. split_train_test ord mini_dataset shots = Inr (train, tail) \<and>
               length batches = Suc (nat (inner_iters - 1)) \<and> last batches = tail))"
proof -
  from assms(3) obtain g2 where
    y: "foml_mini_batches ord self mini_dataset inner_batch_size inner_iters replacement
          collect [] g1 = Some (Inr (batches, g2))"
  proof -
    from assms(3) obtain z where
      z: "foml_mini_batches ord self mini_dataset inner_batch_size inner_iters replacement
            collect [] g1 = Some z" and m: "map_sum id fst z = Inr batches"
      by (auto simp: foml_yielded_def)
    from m obtain g2 where "z = Inr (batches, g2)" by (cases z) auto
    with z that show ?thesis by simp
  qed
  have 1: "batches = [] \<longleftrightarrow> tail_shots self = None \<and> replacement \<and> inner_iters \<le> 0"
    by (rule foml_batches_empty_iff [OF y])
  have 2: "foml_train_step ord self dataset minimize_op num_classes num_shots inner_batch_size
              inner_iters replacement meta_step_size meta_batch_size s g =
            Some (Inl UnboundLocalError)" if e: "batches = []"
  proof -
    from e 1 have c: "tail_shots self = None" "replacement" "inner_iters \<le> 0" by simp_all
    then have "nat inner_iters = 0" by simp
    with c have "foml_mini_batches ord self mini_dataset inner_batch_size inner_iters replacement
        (foml_inner_step self minimize_op) (s, None) g1 = Some (Inr ((s, None), g1))"
      by (simp add: foml_mini_batches_def mini_batches_def)
    with assms(2) have a: "foml_adapt ord self dataset minimize_op num_classes num_shots
        inner_batch_size inner_iters replacement (s, None) g = Some (Inr ((s, None), g1))"
      by (simp add: foml_adapt_def)
    from assms(1) obtain n where n: "nat meta_batch_size = Suc n"
      by (cases "nat meta_batch_size") simp_all
    have "foml_tasks (Suc n)
        (foml_adapt ord self dataset minimize_op num_classes num_shots inner_batch_size
           inner_iters replacement)
        (model_state self) (export_variables (model_state self) s) (s, None, [], g) =
        Some (Inl UnboundLocalError)"
      using a by simp
    then show ?thesis
      unfolding foml_train_step_def Let_def n by simp
  qed
  have 3: "\<exists>train tail. split_train_test ord mini_dataset shots = Inr (train, tail) \<and>
               length batches = Suc (nat (inner_iters - 1)) \<and> last batches = tail"
    if "tail_shots self = Some shots" for shots
    by (rule foml_batches_tail [OF y that])
  from 1 2 3 show ?thesis by blast
qed

theorem foml_train_step_no_batches_witness:
  "foml_train_step 0 (toy_foml None) toy_dataset toy_minimize 2 2 3 0 True (1 / 2) 2
     toy_session (rng_of_list []) = Some (Inl UnboundLocalError)"
proof -
  have "case sample_mini_dataset_with_replacements toy_dataset 2 2 (rng_of_list []) of
          Inr (md, g1) \<Rightarrow> foml_yielded 0 (toy_foml None) md 3 0 True g1 = Some (Inr [])
        | _ \<Rightarrow> False"
    by code_simp
  then obtain md g1 where
    s: "sample_mini_dataset_with_replacements toy_dataset 2 2 (rng_of_list []) = Inr (md, g1)"
    and y: "foml_yielded 0 (toy_foml None) md 3 0 True g1 = Some (Inr [])"
    by (auto split: sum.splits)
  have p: "(0::int) < 2" by simp
  from foml_train_step_no_batches [OF p s y, of toy_minimize "1 / 2" toy_session]
  show ?thesis by simp
qed

text \<open>
  With \<open>tail_shots = 1\<close> and \<open>inner_iters = 1\<close> every task has the tail batch as its only
  mini-batch, and the call returns: each of the two tasks takes one step, on its tail batch.
\<close>

theorem foml_train_step_no_batches_counterexample:
  "\<exists>s' g'. tail_shots (toy_foml (Some 1)) = Some 1 \<and>
     foml_train_step 0 (toy_foml (Some 1)) toy_dataset toy_minimize 2 2 3 1 True (1 / 2) 2
       toy_session (rng_of_list []) = Some (Inr (s', g')) \<and>
     variables s' True = 1 \<and>
     runs s' = [RunMinimize [''a'', ''a''] [0, 1], RunMinimize [''a'', ''a''] [0, 1]]"
proof -
  have "case foml_train_step 0 (toy_foml (Some 1)) toy_dataset toy_minimize 2 2 3 1 True (1 / 2) 2
       toy_session (rng_of_list []) of
          Some (Inr (s', g')) \<Rightarrow> variables s' True = 1 \<and>
            runs s' = [RunMinimize [''a'', ''a''] [0, 1], RunMinimize [''a'', ''a''] [0, 1]]
        | _ \<Rightarrow> False"
    by code_simp
  then show ?thesis by (auto simp: toy_foml_def split: option.splits sum.splits)
qed


section \<open>The evaluation\<close>

lemma sample_classes_labels_subset:
  "sample_classes label_of n (enumerate i cs) g = Inr (task, g') \<Longrightarrow>
     snd ` set task \<subseteq> label_of ` {i..<i + length cs}"
proof (induction cs arbitrary: i g task g')
  case Nil
  then show ?case by simp
next
  case (Cons c cs)
  from Cons.prems obtain xs g1 where c: "c n g = Inr (xs, g1)"
    by (cases "c n g") auto
  with Cons.prems obtain more g2 where
    m: "sample_classes label_of n (enumerate (Suc i) cs) g1 = Inr (more, g2)"
    by (cases "sample_classes label_of n (enumerate (Suc i) cs) g1") auto
  with Cons.prems c have t: "task = map (\<lambda>x. (x, label_of i)) xs @ more" by simp
  from Cons.IH [OF m] have "snd ` set more \<subseteq> label_of ` {Suc i..<Suc i + length cs}" .
  moreover have "{Suc i..<Suc i + length cs} \<subseteq> {i..<i + length (c # cs)}" by auto
  ultimately have "snd ` set more \<subseteq> label_of ` {i..<i + length (c # cs)}" by blast
  moreover have "snd ` set (map (\<lambda>x. (x, label_of i)) xs) \<subseteq> label_of ` {i..<i + length (c # cs)}"
    by auto
  ultimately show ?case unfolding t by (simp add: image_Un)
qed

lemma sample_mini_dataset_labels:
  assumes "sample_mini_dataset dataset num_classes k g = Inr (task, g1)" and "0 \<le> num_classes"
  shows "int (card (snd ` set task)) \<le> num_classes"
proof -
  let ?cs = "slice_to num_classes (nth_arrangement (rnd g) dataset)"
  from assms(1) have "sample_classes int k (enumerate 0 ?cs) (advance g) = Inr (task, g1)"
    by (simp add: sample_mini_dataset_def shuffle_def)
  from sample_classes_labels_subset [OF this]
  have "snd ` set task \<subseteq> int ` {0..<0 + length ?cs}" .
  then have "card (snd ` set task) \<le> card (int ` {0..<0 + length ?cs})"
    by (intro card_mono) auto
  also have "\<dots> \<le> length ?cs" using card_image_le [of "{0..<0 + length ?cs}" int] by simp
  also have "\<dots> \<le> nat num_classes" using assms(2) by (simp add: slice_to_def)
  finally show ?thesis using assms(2) by simp
qed

lemma split_one_per_label:
  fixes task :: "'x sample list"
  assumes "split_train_test ord task 1 = Inr (train_set, test_set)"
  shows "length test_set = card (snd ` set task) \<and>
         (\<forall>l\<in>snd ` set task. length (with_label l test_set) = 1)"
proof -
  let ?res = "(split_round (set_iteration ord (map snd task)) ^^ 1) (task, [])"
  from assms have t: "test_set = snd ?res"
    by (auto simp: split_train_test_def Let_def split_beta split: if_splits)
  have one: "min 1 (length (with_label l task)) = 1" if "l \<in> snd ` set task" for l
  proof -
    from with_label_nonempty [OF that] have "1 \<le> length (with_label l task)"
      by (cases "with_label l task") simp_all
    then show ?thesis by (simp only: min_absorb1)
  qed
  have "length (snd ?res) = (\<Sum>l\<in>snd ` set task. min 1 (length (with_label l task)))"
    by (rule split_rounds_length)
  also have "\<dots> = (\<Sum>l\<in>snd ` set task. 1)" by (rule sum.cong) (simp_all only: one)
  finally have len: "length test_set = card (snd ` set task)" unfolding t by simp
  have "length (with_label l test_set) = 1" if "l \<in> snd ` set task" for l
  proof -
    have "with_label l (snd ?res) = take 1 (with_label l task)"
      by (rule split_rounds_by_label)
    then show ?thesis unfolding t using one [OF that] by simp
  qed
  with len show ?thesis by blast
qed

lemma count_correct:
  "length (filter (\<lambda>(pred, sample). pred = snd sample) (zip preds test_set)) =
     card {j. j < length test_set \<and> j < length preds \<and> preds ! j = snd (test_set ! j)}"
proof -
  have "{i. i < length (zip preds test_set) \<and>
            (\<lambda>(pred, sample). pred = snd sample) (zip preds test_set ! i)} =
        {j. j < length test_set \<and> j < length preds \<and> preds ! j = snd (test_set ! j)}"
    by auto
  then show ?thesis by (simp only: length_filter_conv_card)
qed


lemma evaluate_call:
  assumes "evaluate ord self dataset minimize_op predictions num_classes num_shots inner_batch_size
      inner_iters replacement augment s g = Some (Inr (c, s', g'))"
  shows "\<exists>task g1 train_set test_set s1 test_preds s2.
      sample_mini_dataset dataset num_classes (num_shots + 1) g = Inr (task, g1) \<and>
      split_train_test ord task 1 = Inr (train_set, test_set) \<and>
      mini_batches train_set inner_batch_size inner_iters replacement
        (evaluate_step self augment minimize_op) s g1 = Some (Inr (s1, g')) \<and>
      test_predictions self train_set test_set predictions s1 = Inr (test_preds, s2) \<and>
      c = int (length (filter (\<lambda>(pred, sample). pred = snd sample) (zip test_preds test_set))) \<and>
      s' = import_variables (full_state self) (export_variables (full_state self) s) s2"
proof -
  from assms obtain task g1 where
    1: "sample_mini_dataset dataset num_classes (num_shots + 1) g = Inr (task, g1)"
    by (cases "sample_mini_dataset dataset num_classes (num_shots + 1) g")
       (auto simp: evaluate_def)
  with assms obtain train_set test_set where
    2: "split_train_test ord task 1 = Inr (train_set, test_set)"
    by (cases "split_train_test ord task 1") (auto simp: evaluate_def)
  with assms 1 obtain s1 g2 where
    3: "mini_batches train_set inner_batch_size inner_iters replacement
        (evaluate_step self augment minimize_op) s g1 = Some (Inr (s1, g2))"
    by (auto simp: evaluate_def Let_def split: option.splits sum.splits)
  with assms 1 2 obtain test_preds s2 where
    4: "test_predictions self train_set test_set predictions s1 = Inr (test_preds, s2)"
    by (cases "test_predictions self train_set test_set predictions s1")
       (auto simp: evaluate_def Let_def)
  from assms 1 2 3 4 have
    "c = int (length (filter (\<lambda>(pred, sample). pred = snd sample) (zip test_preds test_set)))"
    "s' = import_variables (full_state self) (export_variables (full_state self) s) s2"
    "g' = g2"
    by (simp_all add: evaluate_def Let_def)
  with 1 2 3 4 show ?thesis by blast
qed

lemma evaluate_times_trace:
  "evaluate_times n ord self dataset minimize_op predictions num_classes num_shots
      inner_batch_size inner_iters replacement augment s g = Some (Inr (counts, s', g')) \<Longrightarrow>
   \<exists>sessions gens.
      length counts = n \<and> length sessions = Suc n \<and> length gens = Suc n \<and>
      sessions ! 0 = s \<and> sessions ! n = s' \<and> gens ! 0 = g \<and> gens ! n = g' \<and>
      (\<forall>i<n. evaluate ord self dataset minimize_op predictions num_classes num_shots
                inner_batch_size inner_iters replacement augment (sessions ! i) (gens ! i) =
              Some (Inr (counts ! i, sessions ! Suc i, gens ! Suc i)))"
proof (induction n arbitrary: s g counts)
  case 0
  then show ?case
    by (intro exI [of _ "[s]"] exI [of _ "[g]"]) simp
next
  case (Suc n)
  from Suc.prems obtain c s1 g1 where
    e: "evaluate ord self dataset minimize_op predictions num_classes num_shots
          inner_batch_size inner_iters replacement augment s g = Some (Inr (c, s1, g1))"
    by (auto split: option.splits sum.splits)
  with Suc.prems obtain rest where
    r: "evaluate_times n ord self dataset minimize_op predictions num_classes num_shots
          inner_batch_size inner_iters replacement augment s1 g1 = Some (Inr (rest, s', g'))"
    and c: "counts = c # rest"
    by (auto split: option.splits sum.splits)
  from Suc.IH [OF r] obtain sessions gens where
    h: "length rest = n" "length sessions = Suc n" "length gens = Suc n"
      "sessions ! 0 = s1" "sessions ! n = s'" "gens ! 0 = g1" "gens ! n = g'"
    and each: "\<forall>i<n. evaluate ord self dataset minimize_op predictions num_classes num_shots
                inner_batch_size inner_iters replacement augment (sessions ! i) (gens ! i) =
              Some (Inr (rest ! i, sessions ! Suc i, gens ! Suc i))"
    by blast
  let ?sessions = "s # sessions" and ?gens = "g # gens"
  have 1: "length counts = Suc n" "length ?sessions = Suc (Suc n)" "length ?gens = Suc (Suc n)"
    "?sessions ! 0 = s" "?sessions ! Suc n = s'" "?gens ! 0 = g" "?gens ! Suc n = g'"
    using h c by simp_all
  have 2: "evaluate ord self dataset minimize_op predictions num_classes num_shots
                inner_batch_size inner_iters replacement augment (?sessions ! i) (?gens ! i) =
              Some (Inr (counts ! i, ?sessions ! Suc i, ?gens ! Suc i))" if "i < Suc n" for i
  proof (cases i)
    case 0
    then show ?thesis using e h(4,6) c by simp
  next
    case (Suc j)
    then have "j < n" using that by simp
    with each have "evaluate ord self dataset minimize_op predictions num_classes num_shots
                inner_batch_size inner_iters replacement augment (sessions ! j) (gens ! j) =
              Some (Inr (rest ! j, sessions ! Suc j, gens ! Suc j))"
      by blast
    then show ?thesis unfolding Suc c by simp
  qed
  from 1 2 show ?case by blast
qed

text \<open>
  Claim C8. Let \<open>n\<close> successive calls of \<^verbatim>\<open>Reptile.evaluate\<close> return, with the results
  \<open>counts\<close>. There are the sessions and the states of the random generator between the
  calls such that every call samples a task of \<open>num_shots + 1\<close> examples per class and
  splits it into a train set and a test set with exactly one example of every label of the
  task; adapts the model on the mini-batches of the train set; returns the number of
  positions of the test set at which the prediction is the label of the test example, a
  number between 0 and the size of the test set, which is at most \<open>num_classes\<close> when
  \<open>num_classes\<close> is not negative; and leaves the session in which the variables of the
  full state have the values exported at the beginning of the call. Hence the full
  snapshot after each call, and after the last one, is the full snapshot before the first.
\<close>

theorem evaluate_restores:
  assumes "evaluate_times n ord self dataset minimize_op predictions num_classes num_shots
      inner_batch_size inner_iters replacement augment s g = Some (Inr (counts, s', g'))"
  shows "length counts = n \<and>
     export_variables (full_state self) s' = export_variables (full_state self) s \<and>
     (\<exists>sessions gens.
        length sessions = Suc n \<and> length gens = Suc n \<and>
        sessions ! 0 = s \<and> sessions ! n = s' \<and> gens ! 0 = g \<and> gens ! n = g' \<and>
        (\<forall>i<n.
           evaluate ord self dataset minimize_op predictions num_classes num_shots
             inner_batch_size inner_iters replacement augment (sessions ! i) (gens ! i) =
             Some (Inr (counts ! i, sessions ! Suc i, gens ! Suc i)) \<and>
           export_variables (full_state self) (sessions ! Suc i) =
             export_variables (full_state self) s \<and>
           (\<exists>task g1 train_set test_set s1 test_preds s2.
              sample_mini_dataset dataset num_classes (num_shots + 1) (gens ! i) = Inr (task, g1) \<and>
              split_train_test ord task 1 = Inr (train_set, test_set) \<and>
              length test_set = card (snd ` set task) \<and>
              (\<forall>l\<in>snd ` set task. length (with_label l test_set) = 1) \<and>
              mini_batches train_set inner_batch_size inner_iters replacement
                (evaluate_step self augment minimize_op) (sessions ! i) g1 =
                Some (Inr (s1, gens ! Suc i)) \<and>
              test_predictions self train_set test_set predictions s1 = Inr (test_preds, s2) \<and>
              sessions ! Suc i =
                import_variables (full_state self)
                  (export_variables (full_state self) (sessions ! i)) s2 \<and>
              counts ! i =
                int (card {j. j < length test_set \<and> j < length test_preds \<and>
                              test_preds ! j = snd (test_set ! j)}) \<and>
              0 \<le> counts ! i \<and> counts ! i \<le> int (length test_set) \<and>
              (0 \<le> num_classes \<longrightarrow> int (length test_set) \<le> num_classes \<and>
                 counts ! i \<le> num_classes))))"
proof -
  let ?full = "full_state self"
  from evaluate_times_trace [OF assms] obtain sessions gens where
    h: "length counts = n" "length sessions = Suc n" "length gens = Suc n"
      "sessions ! 0 = s" "sessions ! n = s'" "gens ! 0 = g" "gens ! n = g'"
    and each: "\<forall>i<n. evaluate ord self dataset minimize_op predictions num_classes num_shots
                inner_batch_size inner_iters replacement augment (sessions ! i) (gens ! i) =
              Some (Inr (counts ! i, sessions ! Suc i, gens ! Suc i))"
    by blast
  have call: "\<exists>task g1 train_set test_set s1 test_preds s2.
              sample_mini_dataset dataset num_classes (num_shots + 1) (gens ! i) = Inr (task, g1) \<and>
              split_train_test ord task 1 = Inr (train_set, test_set) \<and>
              length test_set = card (snd ` set task) \<and>
              (\<forall>l\<in>snd ` set task. length (with_label l test_set) = 1) \<and>
              mini_batches train_set inner_batch_size inner_iters replacement
                (evaluate_step self augment minimize_op) (sessions ! i) g1 =
                Some (Inr (s1, gens ! Suc i)) \<and>
              test_predictions self train_set test_set predictions s1 = Inr (test_preds, s2) \<and>
              sessions ! Suc i =
                import_variables ?full (export_variables ?full (sessions ! i)) s2 \<and>
              counts ! i =
                int (card {j. j < length test_set \<and> j < length test_preds \<and>
                              test_preds ! j = snd (test_set ! j)}) \<and>
              0 \<le> counts ! i \<and> counts ! i \<le> int (length test_set) \<and>
              (0 \<le> num_classes \<longrightarrow> int (length test_set) \<le> num_classes \<and>
                 counts ! i \<le> num_classes)"
    if i: "i < n" for i
  proof -
    from each i have "evaluate ord self dataset minimize_op predictions num_classes num_shots
                inner_batch_size inner_iters replacement augment (sessions ! i) (gens ! i) =
              Some (Inr (counts ! i, sessions ! Suc i, gens ! Suc i))"
      by blast
    from evaluate_call [OF this] obtain task g1 train_set test_set s1 test_preds s2 where
      e: "sample_mini_dataset dataset num_classes (num_shots + 1) (gens ! i) = Inr (task, g1)"
        "split_train_test ord task 1 = Inr (train_set, test_set)"
        "mini_batches train_set inner_batch_size inner_iters replacement
           (evaluate_step self augment minimize_op) (sessions ! i) g1 =
           Some (Inr (s1, gens ! Suc i))"
        "test_predictions self train_set test_set predictions s1 = Inr (test_preds, s2)"
        "counts ! i =
           int (length (filter (\<lambda>(pred, sample). pred = snd sample) (zip test_preds test_set)))"
        "sessions ! Suc i = import_variables ?full (export_variables ?full (sessions ! i)) s2"
      by blast
    from split_one_per_label [OF e(2)] have
      sp: "length test_set = card (snd ` set task)"
        "\<forall>l\<in>snd ` set task. length (with_label l test_set) = 1"
      by blast+
    have cnt: "counts ! i =
        int (card {j. j < length test_set \<and> j < length test_preds \<and>
                      test_preds ! j = snd (test_set ! j)})"
      unfolding e(5) by (simp only: count_correct)
    have "length (filter (\<lambda>(pred, sample). pred = snd sample) (zip test_preds test_set)) \<le>
        length (zip test_preds test_set)"
      by (rule length_filter_le)
    then have le: "counts ! i \<le> int (length test_set)" unfolding e(5) by simp
    have nn: "0 \<le> counts ! i" unfolding e(5) by simp
    have cls: "int (length test_set) \<le> num_classes \<and> counts ! i \<le> num_classes"
      if "0 \<le> num_classes"
      using sample_mini_dataset_labels [OF e(1) that] sp(1) le by simp
    from e(1,2,3,4,6) sp cnt nn le cls show ?thesis by blast
  qed
  have step: "export_variables ?full (sessions ! Suc i) = export_variables ?full (sessions ! i)"
    if i: "i < n" for i
  proof -
    from call [OF i] obtain s2 where
      "sessions ! Suc i = import_variables ?full (export_variables ?full (sessions ! i)) s2"
      by blast
    then show ?thesis by simp
  qed
  have frame: "i \<le> n \<Longrightarrow> export_variables ?full (sessions ! i) = export_variables ?full s" for i
  proof (induction i)
    case 0
    then show ?case using h(4) by simp
  next
    case (Suc i)
    then have "i < n" by simp
    from step [OF this] Suc show ?case by simp
  qed
  have final: "export_variables ?full s' = export_variables ?full s"
    using frame [of n] h(5) by simp
  have all: "evaluate ord self dataset minimize_op predictions num_classes num_shots
             inner_batch_size inner_iters replacement augment (sessions ! i) (gens ! i) =
             Some (Inr (counts ! i, sessions ! Suc i, gens ! Suc i)) \<and>
           export_variables ?full (sessions ! Suc i) = export_variables ?full s \<and>
           (\<exists>task g1 train_set test_set s1 test_preds s2.
              sample_mini_dataset dataset num_classes (num_shots + 1) (gens ! i) = Inr (task, g1) \<and>
              split_train_test ord task 1 = Inr (train_set, test_set) \<and>
              length test_set = card (snd ` set task) \<and>
              (\<forall>l\<in>snd ` set task. length (with_label l test_set) = 1) \<and>
              mini_batches train_set inner_batch_size inner_iters replacement
                (evaluate_step self augment minimize_op) (sessions ! i) g1 =
                Some (Inr (s1, gens ! Suc i)) \<and>
              test_predictions self train_set test_set predictions s1 = Inr (test_preds, s2) \<and>
              sessions ! Suc i =
                import_variables ?full (export_variables ?full (sessions ! i)) s2 \<and>
              counts ! i =
                int (card {j. j < length test_set \<and> j < length test_preds \<and>
                              test_preds ! j = snd (test_set ! j)}) \<and>
              0 \<le> counts ! i \<and> counts ! i \<le> int (length test_set) \<and>
              (0 \<le> num_classes \<longrightarrow> int (length test_set) \<le> num_classes \<and>
                 counts ! i \<le> num_classes))"
    if i: "i < n" for i
  proof -
    from each i have a: "evaluate ord self dataset minimize_op predictions num_classes num_shots
             inner_batch_size inner_iters replacement augment (sessions ! i) (gens ! i) =
             Some (Inr (counts ! i, sessions ! Suc i, gens ! Suc i))"
      by blast
    from i have "Suc i \<le> n" by simp
    then have b: "export_variables ?full (sessions ! Suc i) = export_variables ?full s"
      by (rule frame)
    from a b call [OF i] show ?thesis by (intro conjI)
  qed
  from h final all show ?thesis by blast
qed

theorem evaluate_restores_witness:
  "\<exists>s' g'. evaluate_times 2 0 (toy_reptile False) toy_dataset toy_minimize toy_predictions
       2 2 3 2 True False toy_session (rng_of_list []) = Some (Inr ([2, 2], s', g')) \<and>
     export_variables UNIV s' = export_variables UNIV toy_session \<and>
     variables s' True = 0 \<and> variables s' False = 0 \<and> length (runs s') = 8"
proof -
  let ?run = "evaluate_times 2 0 (toy_reptile False) toy_dataset toy_minimize toy_predictions
       2 2 3 2 True False toy_session (rng_of_list [])"
  have "case ?run of Some (Inr (counts, s', g')) \<Rightarrow>
          counts = [2, 2] \<and> variables s' True = 0 \<and> variables s' False = 0 \<and>
          length (runs s') = 8
        | _ \<Rightarrow> False"
    by code_simp
  then obtain s' g' where r: "?run = Some (Inr ([2, 2], s', g'))"
    and v: "variables s' True = 0" "variables s' False = 0" "length (runs s') = 8"
    by (auto split: option.splits sum.splits)
  have m: "full_state (toy_reptile False) = UNIV" by (simp add: toy_reptile_def)
  from evaluate_restores [OF r]
  have "export_variables UNIV s' = export_variables UNIV toy_session"
    unfolding m by (rule conjunct1 [OF conjunct2])
  with r v show ?thesis by blast
qed

end
